theory Spec2Isabelle
  imports Main "HOL-Library.Word"
begin

section \<open>Bytes, strings and decimal numbers\<close>

text \<open>
  A C++ \<open>std::string\<close> is a sequence of bytes. \<open>char\<close> is signed on the platforms the
  program is built for, so a conversion of a \<open>char\<close> to a wider integer sign-extends
  (\<open>scast\<close>), and \<open>(byte)\<close> is \<open>unsigned char\<close>.
\<close>

type_synonym byte = "8 word"
type_synonym bytes = "byte list"
type_synonym u32 = "32 word"
type_synonym u64 = "64 word"

definition ascii :: "string \<Rightarrow> bytes" where
  "ascii s = map (\<lambda>c. of_nat (of_char c)) s"

definition NL :: byte where
  "NL = 10"

text \<open>\<open>std::to_string\<close> of a non-negative integer: its decimal digits.\<close>

fun to_string :: "nat \<Rightarrow> bytes" where
  "to_string n = (if n < 10 then [of_nat (48 + n)]
                  else to_string (n div 10) @ [of_nat (48 + n mod 10)])"

declare to_string.simps [simp del]

section \<open>The C random number generator the program emulates\<close>

text \<open>
  \<open>randomEngine\<close> is one static \<open>std::minstd_rand0\<close>: the state \<open>x\<close> steps to
  \<open>16807 * x mod 2147483647\<close>, and seeding with \<open>s\<close> sets the state to \<open>s mod 2147483647\<close>,
  or to 1 when that is 0. \<open>my_rand\<close> returns the next state minus the engine's minimum, 1.
  The engine's state is passed explicitly.
\<close>

definition minstd_modulus :: nat where
  "minstd_modulus = 2147483647"

definition my_srand :: "u32 \<Rightarrow> nat" where
  "my_srand s = (if unat s mod minstd_modulus = 0 then 1 else unat s mod minstd_modulus)"

definition engine_step :: "nat \<Rightarrow> nat" where
  "engine_step x = (16807 * x) mod minstd_modulus"

definition my_rand :: "nat \<Rightarrow> nat \<times> nat" where
  "my_rand x = (engine_step x - 1, engine_step x)"

text \<open>The \<open>k\<close>-th value (from 0) that \<open>my_rand\<close> returns when the engine starts in state \<open>x\<close>.\<close>

definition rand_from :: "nat \<Rightarrow> nat \<Rightarrow> nat" where
  "rand_from x k = (engine_step ^^ Suc k) x - 1"

section \<open>Key and IV derivation (buildKey, buildIV)\<close>

text \<open>
  \<open>my_srand((u32) 24593 * (pwd[0] * pwd[2]) + 49157)\<close>: the product of the two characters
  is an \<open>int\<close>, converted to \<open>u32\<close> by the multiplication.
  \<open>my_srand((u32) 7919 * pass[2] * pass[5] + 75653)\<close> multiplies in \<open>u32\<close> throughout.
\<close>

definition key_srand_arg :: "bytes \<Rightarrow> u32" where
  "key_srand_arg pwd = 24593 * word_of_int (sint (pwd ! 0) * sint (pwd ! 2)) + 49157"

definition iv_srand_arg :: "bytes \<Rightarrow> u32" where
  "iv_srand_arg pass = 7919 * scast (pass ! 2) * scast (pass ! 5) + 75653"

text \<open>
  The loop \<open>for (byte i = (byte) pwd.size(); i--;) seed += ((u64) pwd[i] * my_rand()) + my_rand();\<close>
  The second argument counts \<open>i\<close> down; the body runs with the decremented index. The
  left call of \<open>my_rand\<close> is taken to run before the right one. \<open>seed\<close> is a \<open>u64\<close>.
\<close>

fun seed_loop :: "bytes \<Rightarrow> nat \<Rightarrow> u64 \<times> nat \<Rightarrow> u64 \<times> nat" where
  "seed_loop pwd 0 (seed, g) = (seed, g)"
| "seed_loop pwd (Suc i) (seed, g) =
     (let (r1, g1) = my_rand g; (r2, g2) = my_rand g1
      in seed_loop pwd i (seed + (scast (pwd ! i) * of_nat r1 + of_nat r2), g2))"

text \<open>The loop bound \<open>(byte) pwd.size()\<close> keeps the low 8 bits of the length.\<close>

definition byte_size :: "bytes \<Rightarrow> nat" where
  "byte_size s = unat (of_nat (length s) :: byte)"

text \<open>\<open>seed %= 4294967295\<close> after the loop; the result seeds \<open>rng\<close>.\<close>

definition key_seed :: "bytes \<Rightarrow> u64" where
  "key_seed pwd = fst (seed_loop pwd (byte_size pwd) (0, my_srand (key_srand_arg pwd))) mod 4294967295"

definition iv_seed :: "bytes \<Rightarrow> u64" where
  "iv_seed pass = fst (seed_loop pass (byte_size pass) (0, my_srand (iv_srand_arg pass))) mod 4294967295"

text \<open>
  \<open>rng_type\<close> and its distribution \<open>udist(0, 255)\<close> come from a header and the standard
  library; \<open>draw seed k\<close> stands for the \<open>k\<close>-th value of \<open>udist(rng)\<close> after
  \<open>rng.seed(seed)\<close>. The loop \<open>for (u32 i = 16; i--;) key[i] = (byte) (udist(rng) % 255)\<close>
  fills the array from its last element, so \<open>key[i]\<close> holds draw number \<open>15 - i\<close>.
\<close>

definition fill16 :: "(u64 \<Rightarrow> nat \<Rightarrow> nat) \<Rightarrow> u64 \<Rightarrow> bytes" where
  "fill16 draw seed = map (\<lambda>i. of_nat (draw seed (15 - i) mod 255)) [0..<16]"

definition buildKey :: "(u64 \<Rightarrow> nat \<Rightarrow> nat) \<Rightarrow> bytes \<Rightarrow> bytes" where
  "buildKey draw pwd = fill16 draw (key_seed pwd)"

definition buildIV :: "(u64 \<Rightarrow> nat \<Rightarrow> nat) \<Rightarrow> bytes \<Rightarrow> bytes" where
  "buildIV draw pass = fill16 draw (iv_seed pass)"

text \<open>
  The derivation as the specification words it: each password byte times the sum of two
  draws, \<open>password[i] * (rand() + rand())\<close>, reduced modulo \<open>2^32 - 1\<close>.
\<close>

fun spec_seed_loop :: "bytes \<Rightarrow> nat \<Rightarrow> u64 \<times> nat \<Rightarrow> u64 \<times> nat" where
  "spec_seed_loop pwd 0 (seed, g) = (seed, g)"
| "spec_seed_loop pwd (Suc i) (seed, g) =
     (let (r1, g1) = my_rand g; (r2, g2) = my_rand g1
      in spec_seed_loop pwd i (seed + scast (pwd ! i) * (of_nat r1 + of_nat r2), g2))"

definition spec_key_seed :: "bytes \<Rightarrow> u64" where
  "spec_key_seed pwd =
     fst (spec_seed_loop pwd (byte_size pwd) (0, my_srand (key_srand_arg pwd))) mod 4294967295"

definition spec_iv_seed :: "bytes \<Rightarrow> u64" where
  "spec_iv_seed pass =
     fst (spec_seed_loop pass (byte_size pass) (0, my_srand (iv_srand_arg pass))) mod 4294967295"

section \<open>Input streams\<close>

text \<open>
  A \<open>std::ifstream\<close> read from front to back: the bytes not yet read and the two state
  bits the program tests. \<open>good()\<close> is false as soon as either bit is set, so
  \<open>getline(in, line).good()\<close> holds only when a newline ended the line: a last line with
  no newline is read with \<open>eofbit\<close> set. An operation on a stream that is not good
  extracts nothing and sets \<open>failbit\<close>.
\<close>

record istream =
  buf :: bytes
  eofbit :: bool
  failbit :: bool

definition open_file :: "bytes \<Rightarrow> istream" where
  "open_file f = \<lparr>buf = f, eofbit = False, failbit = False\<rparr>"

text \<open>Opening a file that does not exist sets \<open>failbit\<close>.\<close>

definition open_opt :: "bytes option \<Rightarrow> istream" where
  "open_opt f = (case f of None \<Rightarrow> \<lparr>buf = [], eofbit = False, failbit = True\<rparr>
                          | Some b \<Rightarrow> open_file b)"

definition good :: "istream \<Rightarrow> bool" where
  "good s = (\<not> eofbit s \<and> \<not> failbit s)"

text \<open>The bytes before the first newline, and the bytes after it when there is one.\<close>

fun split_line :: "bytes \<Rightarrow> bytes \<times> bytes option" where
  "split_line [] = ([], None)"
| "split_line (c # cs) =
     (if c = NL then ([], Some cs) else (case split_line cs of (l, r) \<Rightarrow> (c # l, r)))"

text \<open>\<open>getline(in, line)\<close>: the second argument is the old value of \<open>line\<close>, kept when
  the stream was not good.\<close>

definition getline :: "istream \<Rightarrow> bytes \<Rightarrow> bytes \<times> istream" where
  "getline s line =
     (if \<not> good s then (line, s\<lparr>failbit := True\<rparr>)
      else case split_line (buf s) of
             (l, Some rest) \<Rightarrow> (l, s\<lparr>buf := rest\<rparr>)
           | (l, None) \<Rightarrow> (l, s\<lparr>buf := [], eofbit := True, failbit := (l = [])\<rparr>))"

text \<open>\<open>in.ignore(LARGE_NUMBER, '\n')\<close>, with \<open>LARGE_NUMBER\<close> taken as no limit.\<close>

definition ignore_line :: "istream \<Rightarrow> istream" where
  "ignore_line s =
     (if \<not> good s then s\<lparr>failbit := True\<rparr>
      else case split_line (buf s) of
             (l, Some rest) \<Rightarrow> s\<lparr>buf := rest\<rparr>
           | (l, None) \<Rightarrow> s\<lparr>buf := [], eofbit := True\<rparr>)"

text \<open>\<open>in.peek()\<close>: \<open>None\<close> is \<open>EOF\<close>.\<close>

definition peek :: "istream \<Rightarrow> byte option \<times> istream" where
  "peek s =
     (if \<not> good s then (None, s\<lparr>failbit := True\<rparr>)
      else case buf s of [] \<Rightarrow> (None, s\<lparr>eofbit := True\<rparr>) | c # _ \<Rightarrow> (Some c, s))"

definition stream_measure :: "istream \<Rightarrow> nat" where
  "stream_measure s = (if eofbit s then 0 else Suc (length (buf s)))"

lemma split_line_shorter: "split_line b = (l, Some r) \<Longrightarrow> length r < length b"
  by (induction b arbitrary: l) (auto split: if_splits prod.splits)

lemma getline_good_shorter:
  "getline s line = (l, s') \<Longrightarrow> good s' \<Longrightarrow> length (buf s') < length (buf s)"
  by (auto simp: getline_def good_def split: if_splits prod.splits option.splits
           dest: split_line_shorter)

lemma getline_buf_le: "length (buf (snd (getline s line))) \<le> length (buf s)"
  by (auto simp: getline_def split: prod.splits option.splits dest: split_line_shorter)

lemma getline_buf_less:
  "good s \<Longrightarrow> buf s \<noteq> [] \<Longrightarrow> length (buf (snd (getline s line))) < length (buf s)"
  by (auto simp: getline_def split: prod.splits option.splits dest: split_line_shorter)

lemma ignore_line_buf_le: "length (buf (ignore_line s)) \<le> length (buf s)"
  by (auto simp: ignore_line_def split: prod.splits option.splits dest: split_line_shorter)

lemma ignore_lines_buf_le: "length (buf ((ignore_line ^^ n) s)) \<le> length (buf s)"
  by (induction n) (auto intro: order_trans[OF ignore_line_buf_le])

lemma getline_measure_le: "stream_measure (snd (getline s line)) \<le> stream_measure s"
  by (auto simp: getline_def stream_measure_def good_def split: prod.splits option.splits
           dest: split_line_shorter)

lemma ignore_line_measure_le: "stream_measure (ignore_line s) \<le> stream_measure s"
  by (auto simp: ignore_line_def stream_measure_def good_def split: prod.splits option.splits
           dest: split_line_shorter)

lemma getline_measure_less:
  "good s \<Longrightarrow> stream_measure (snd (getline s line)) < stream_measure s"
  by (auto simp: getline_def stream_measure_def good_def split: prod.splits option.splits
           dest: split_line_shorter)

section \<open>Scanning the input (gatherHdrBs, gatherHdrQs, hasFQjustPlus)\<close>

text \<open>
  \<open>hChars\<close> is an array of 127 flags indexed by character; the model keeps the set of
  flagged characters. Only the flags 32 to 126 are read afterwards.
  \<open>for (const char &c : line) hChars[c] = true;\<close> indexes \<open>bool hChars[127]\<close> with a
  \<open>char\<close>: for a byte from 127 on the index is 127 or negative, outside the array, and
  the write has no defined result. \<open>in_table\<close> says that every byte of a line is an index
  of the array.
\<close>

definition in_table :: "bytes \<Rightarrow> bool" where
  "in_table line = list_all (\<lambda>c. c < 127) line"

text \<open>
  The loop is \<open>while (getline(in, line).good())\<close>; \<open>line[0]\<close> of an empty line is the
  terminating zero, so an empty line is no header. \<open>None\<close> is a write outside \<open>hChars\<close>.
\<close>

function gatherHdrBs_scan :: "istream \<Rightarrow> u32 \<times> byte set \<Rightarrow> (u32 \<times> byte set) option" where
  "gatherHdrBs_scan s (maxBLen, hChars) =
     (case getline s [] of (line, s') \<Rightarrow>
        if good s' then
          (if line \<noteq> [] \<and> hd line = 62 then
             (if in_table line then gatherHdrBs_scan s' (maxBLen, hChars \<union> set line) else None)
           else if unat maxBLen < length line
           then gatherHdrBs_scan s' (of_nat (length line), hChars)
           else gatherHdrBs_scan s' (maxBLen, hChars))
        else Some (maxBLen, hChars))"
  by pat_completeness auto
termination
  by (relation "measure (\<lambda>(s, _). length (buf s))") (auto dest: getline_good_shorter[OF sym])

text \<open>The characters 32 to 126 but \<open>skip\<close>, in ascending order, that are flagged.\<close>

definition gathered :: "byte \<Rightarrow> byte set \<Rightarrow> bytes" where
  "gathered skip chars = filter (\<lambda>c. c \<in> chars \<and> c \<noteq> skip) (map of_nat [32..<127])"

text \<open>
  \<open>BlockLine = (u32) (BLOCK_SIZE / maxBLen); if (!BlockLine) BlockLine = 2;\<close>
  \<open>BLOCK_SIZE\<close> is a constant of a header that is not part of the sources: it is a
  parameter here. A division by zero has no result (\<open>None\<close>). The result is \<open>BlockLine\<close>
  and the string \<open>headers\<close>.
\<close>

definition gatherHdrBs :: "u32 \<Rightarrow> bytes \<Rightarrow> (u32 \<times> bytes) option" where
  "gatherHdrBs BLOCK_SIZE inFile =
     (case gatherHdrBs_scan (open_file inFile) (0, {}) of
        None \<Rightarrow> None
      | Some (maxBLen, hChars) \<Rightarrow>
          if maxBLen = 0 then None
          else Some (if BLOCK_SIZE div maxBLen = 0 then 2 else BLOCK_SIZE div maxBLen,
                     gathered 62 hChars))"

text \<open>
  \<open>gatherHdrQs\<close> loops \<open>while (!in.eof())\<close> over records of four lines. A stream whose
  \<open>failbit\<close> is set while \<open>eofbit\<close> is not would never leave the loop, and a byte of a
  header or of a line of quality scores that is no index of \<open>hChars\<close> or \<open>qChars\<close> is
  written outside the array: both are \<open>None\<close>.
\<close>

function gatherHdrQs_scan ::
  "istream \<Rightarrow> u32 \<times> u32 \<times> byte set \<times> byte set \<Rightarrow> (u32 \<times> u32 \<times> byte set \<times> byte set) option" where
  "gatherHdrQs_scan s (maxHLen, maxQLen, hChars, qChars) =
     (if eofbit s then Some (maxHLen, maxQLen, hChars, qChars)
      else if failbit s then None
      else
        case getline s [] of (line1, s1) \<Rightarrow>
        case getline (ignore_line (ignore_line s1)) line1 of (line2, s4) \<Rightarrow>
          if (good s1 \<and> \<not> in_table line1) \<or> (good s4 \<and> \<not> in_table line2) then None
          else
            gatherHdrQs_scan s4
              (if good s1 \<and> unat maxHLen < length line1 then of_nat (length line1) else maxHLen,
               if good s4 \<and> unat maxQLen < length line2 then of_nat (length line2) else maxQLen,
               if good s1 then hChars \<union> set line1 else hChars,
               if good s4 then qChars \<union> set line2 else qChars))"
  by pat_completeness auto
termination
proof (relation "measure (\<lambda>(s, _). stream_measure s)")
  show "wf (measure (\<lambda>(s, _). stream_measure s))" by simp
next
  fix s :: istream and maxHLen maxQLen :: u32 and hChars qChars :: "byte set"
    and x line1 s1 x2 line2 s4 and rest :: "u32 \<times> byte set \<times> byte set"
    and rest2 :: "byte set \<times> byte set"
  assume a: "\<not> eofbit s" "\<not> failbit s" "(line1, s1) = getline s []"
    "(line2, s4) = getline (ignore_line (ignore_line s1)) line1"
  have g: "good s" using a by (simp add: good_def)
  have s1: "s1 = snd (getline s [])" using a(3) by (metis snd_conv)
  have s4: "s4 = snd (getline (ignore_line (ignore_line s1)) line1)" using a(4) by (metis snd_conv)
  have "stream_measure s4 \<le> stream_measure (ignore_line (ignore_line s1))"
    unfolding s4 by (rule getline_measure_le)
  also have "\<dots> \<le> stream_measure (ignore_line s1)" by (rule ignore_line_measure_le)
  also have "\<dots> \<le> stream_measure s1" by (rule ignore_line_measure_le)
  also have "\<dots> < stream_measure s" unfolding s1 by (rule getline_measure_less[OF g])
  finally show "((s4,
            if good s1 \<and> unat maxHLen < length line1 then of_nat (length line1) else maxHLen,
            if good s4 \<and> unat maxQLen < length line2 then of_nat (length line2) else maxQLen,
            if good s1 then hChars \<union> set line1 else hChars,
            if good s4 then qChars \<union> set line2 else qChars),
           s, maxHLen, maxQLen, hChars, qChars)
          \<in> measure (\<lambda>(s, _). stream_measure s)" by simp
qed

text \<open>
  \<open>BlockLine = (u32) (4 * (BLOCK_SIZE / (maxHLen + 2*maxQLen))); if (!BlockLine) BlockLine = 4;\<close>
  The result is \<open>BlockLine\<close>, \<open>headers\<close> (without \<open>@\<close>) and \<open>qscores\<close> (no character
  is left out: 127 is not in the range gathered).
\<close>

definition gatherHdrQs :: "u32 \<Rightarrow> bytes \<Rightarrow> (u32 \<times> bytes \<times> bytes) option" where
  "gatherHdrQs BLOCK_SIZE inFile =
     (case gatherHdrQs_scan (open_file inFile) (0, 0, {}, {}) of
        None \<Rightarrow> None
      | Some (maxHLen, maxQLen, hChars, qChars) \<Rightarrow>
          if maxHLen + 2 * maxQLen = 0 then None
          else Some (if 4 * (BLOCK_SIZE div (maxHLen + 2 * maxQLen)) = 0 then 4
                     else 4 * (BLOCK_SIZE div (maxHLen + 2 * maxQLen)),
                     gathered 64 hChars, gathered 127 qChars))"

text \<open>
  \<open>hasFQjustPlus\<close>: skip two lines, then
  \<open>justPlus = !(getline(in, line).good() && line.length() > 1)\<close>.
\<close>

definition hasFQjustPlus :: "bytes \<Rightarrow> bool" where
  "hasFQjustPlus inFile =
     (case getline (ignore_line (ignore_line (open_file inFile))) [] of
        (line, s) \<Rightarrow> \<not> (good s \<and> 1 < length line))"

section \<open>Shuffling (un_shuffleSeedGen, shufflePkd, unshufflePkd)\<close>

text \<open>
  \<open>for (u32 i = (u32) pass.size(); i--;) passDigitsMult *= pass[i];\<close> in \<open>u64\<close>.
\<close>

fun mult_loop :: "bytes \<Rightarrow> nat \<Rightarrow> u64 \<Rightarrow> u64" where
  "mult_loop pass 0 m = m"
| "mult_loop pass (Suc i) m = mult_loop pass i (m * scast (pass ! i))"

text \<open>\<open>for (byte i = (byte) pass.size(); i--;) seed += (u64) pass[i] * my_rand();\<close>\<close>

fun shuffle_seed_loop :: "bytes \<Rightarrow> nat \<Rightarrow> u64 \<times> nat \<Rightarrow> u64 \<times> nat" where
  "shuffle_seed_loop pass 0 (seed, g) = (seed, g)"
| "shuffle_seed_loop pass (Suc i) (seed, g) =
     (let (r, g1) = my_rand g
      in shuffle_seed_loop pass i (seed + scast (pass ! i) * of_nat r, g1))"

text \<open>
  \<open>un_shuffleSeedGen\<close> reads the password, seeds with
  \<open>my_srand(20543 * (u32) passDigitsMult + 81647)\<close> and stores the sum in \<open>seed_shared\<close>.
\<close>

definition un_shuffleSeedGen :: "bytes \<Rightarrow> u64" where
  "un_shuffleSeedGen pass =
     (let passDigitsMult = mult_loop pass (unat (of_nat (length pass) :: u32)) 1
      in fst (shuffle_seed_loop pass (byte_size pass)
                (0, my_srand (20543 * ucast passDigitsMult + 81647))))"

text \<open>
  \<open>std::shuffle(first, last, std::mt19937(seed))\<close> belongs to the standard library. It
  permutes a range by exchanging pairs of its elements, and the positions it exchanges
  depend on the generator and on the length of the range only, never on the elements.
  \<open>swaps seed n\<close> stands for the exchanges it makes, in order, on a range of length \<open>n\<close>
  with a generator seeded by \<open>seed\<close>; an exchange is a pair of positions of the range.
\<close>

type_synonym std_shuffle = "u64 \<Rightarrow> nat \<Rightarrow> (nat \<times> nat) list"

definition iter_swap :: "nat \<times> nat \<Rightarrow> 'a list \<Rightarrow> 'a list" where
  "iter_swap p xs =
     (case p of (i, j) \<Rightarrow>
        if i < length xs \<and> j < length xs then xs[i := xs ! j, j := xs ! i] else xs)"

definition shuffle :: "std_shuffle \<Rightarrow> u64 \<Rightarrow> 'a list \<Rightarrow> 'a list" where
  "shuffle swaps seed xs = fold iter_swap (swaps seed (length xs)) xs"

definition shufflePkd :: "std_shuffle \<Rightarrow> bytes \<Rightarrow> bytes \<Rightarrow> bytes" where
  "shufflePkd swaps pass inp = shuffle swaps (un_shuffleSeedGen pass) inp"

text \<open>
  \<open>unshufflePkd(i, size)\<close> copies the \<open>size\<close> bytes at \<open>i\<close> into \<open>shuffledStr\<close>, shuffles
  the positions \<open>0 .. size-1\<close> with the same seed, and stores byte \<open>k\<close> of the copy at
  position \<open>vPos[k]\<close> of the text: \<open>for (const u64& vI : vPos) *(i + vI) = *shIt++;\<close>.
  Every caller passes the whole chunk, so \<open>size\<close> is the length of the text.
\<close>

definition unshufflePkd :: "std_shuffle \<Rightarrow> bytes \<Rightarrow> bytes \<Rightarrow> bytes" where
  "unshufflePkd swaps pass txt =
     (let shuffledStr = txt;
          vPos = shuffle swaps (un_shuffleSeedGen pass) [0..<length txt]
      in fold (\<lambda>(vI, c) t. t[vI := c]) (zip vPos shuffledStr) txt)"

section \<open>Packing (packFA, packFQ)\<close>

text \<open>
  The packing routines of \<open>pack.h\<close> are not part of the sources. Each appends to the
  output string what it packs from its input; the model takes them as parameters that
  return the appended bytes. \<open>packHdr\<close> and \<open>packQS\<close> are the routines \<open>compressFA\<close> and
  \<open>compressFQ\<close> select, applied to the tables \<open>HdrMap\<close> and \<open>QsMap\<close>.
\<close>

record packers =
  packSeq_3to1 :: "bytes \<Rightarrow> bytes"
  packHdr :: "bytes \<Rightarrow> bytes"
  packQS :: "bytes \<Rightarrow> bytes"

text \<open>
  The fields of the \<open>EnDecrypto\<close> object the model reads. \<open>keyFile\<close> is the content of
  the file \<open>keyFileName\<close>, which \<open>extractPass\<close> returns whole.
\<close>

record EnDecrypto =
  n_threads :: byte
  disable_shuffle :: bool
  verbose :: bool
  BlockLine :: u32
  shuffled :: bool
  justPlus :: bool
  keyFile :: bytes

text \<open>Modelled from the spec: the constant \<open>THR_ID_HDR\<close> of \<open>def.h\<close>, the text \<open>THR=\<close>.\<close>

definition THR_ID_HDR :: bytes where
  "THR_ID_HDR = ascii ''THR=''"

text \<open>
  One line of a FASTA block. The state is \<open>(ctx, seq)\<close>, the source's strings
  \<open>context\<close> and \<open>seq\<close>. A header line first packs
  the sequence read so far, without its last byte (\<open>seq.pop_back()\<close>), and ends it with
  254; then 253, the packed header without \<open>>\<close>, and 254. An empty line adds 252 to
  \<open>seq\<close>; any other line adds the line and 252.
\<close>

definition flush_seq :: "packers \<Rightarrow> bytes \<times> bytes \<Rightarrow> bytes" where
  "flush_seq P cs =
     (case cs of (ctx, seq) \<Rightarrow>
        if seq \<noteq> [] then ctx @ packSeq_3to1 P (butlast seq) @ [254] else ctx)"

definition packFA_line :: "packers \<Rightarrow> bytes \<Rightarrow> bytes \<times> bytes \<Rightarrow> bytes \<times> bytes" where
  "packFA_line P line cs =
     (if line \<noteq> [] \<and> hd line = 62 then
        (flush_seq P cs @ [253] @ packHdr P (tl line) @ [254], [])
      else if line = [] then (fst cs, snd cs @ [252])
      else (fst cs, snd cs @ line @ [252]))"

text \<open>\<open>for (u64 l = BlockLine; l-- && getline(in, line).good();)\<close>\<close>

fun packFA_block :: "packers \<Rightarrow> nat \<Rightarrow> istream \<Rightarrow> bytes \<times> bytes \<Rightarrow> (bytes \<times> bytes) \<times> istream" where
  "packFA_block P 0 s cs = (cs, s)"
| "packFA_block P (Suc l) s cs =
     (case getline s [] of (line, s') \<Rightarrow>
        if good s' then packFA_block P l s' (packFA_line P line cs) else (cs, s'))"

text \<open>
  After a block: the shuffle unless disabled, the size of the packed text between 253
  and 254 in front of it, and the write to the thread's file of the line \<open>THR=<t>\<close>,
  then that text and a newline.
\<close>

definition shuffle_context :: "std_shuffle \<Rightarrow> EnDecrypto \<Rightarrow> bytes \<Rightarrow> bytes" where
  "shuffle_context swaps st ctx =
     (if \<not> disable_shuffle st then shufflePkd swaps (keyFile st) ctx else ctx)"

definition frame_context :: "bytes \<Rightarrow> bytes" where
  "frame_context ctx = [253] @ to_string (length ctx) @ [254] @ ctx"

definition write_chunk :: "byte \<Rightarrow> bytes \<Rightarrow> bytes" where
  "write_chunk threadID ctx =
     THR_ID_HDR @ to_string (unat threadID) @ [NL] @ ctx @ [NL]"

text \<open>\<open>(u64) (n_threads-1)*BlockLine\<close>: the lines a thread skips to its next block.\<close>

definition skip_count :: "EnDecrypto \<Rightarrow> nat" where
  "skip_count st = unat ((word_of_int (uint (n_threads st) - 1) :: u64) * ucast (BlockLine st))"

lemma packFA_block_buf_le: "length (buf (snd (packFA_block P l s cs))) \<le> length (buf s)"
proof (induction l arbitrary: s cs)
  case 0
  show ?case by simp
next
  case (Suc l)
  obtain line s' where g: "getline s [] = (line, s')" by (cases "getline s []")
  have "length (buf s') \<le> length (buf s)" using getline_buf_le[of s "[]"] g by simp
  then show ?case using Suc[of s' "packFA_line P line cs"] g by auto
qed

lemma packFA_block_buf_less:
  assumes "good s" "buf s \<noteq> []" "0 < l"
  shows "length (buf (snd (packFA_block P l s cs))) < length (buf s)"
proof -
  obtain k where l: "l = Suc k" using assms(3) by (cases l) auto
  obtain line s' where g: "getline s [] = (line, s')" by (cases "getline s []")
  have "length (buf s') < length (buf s)"
    using getline_buf_less[OF assms(1,2), of "[]"] g by simp
  then show ?thesis
    using packFA_block_buf_le[of P k s' "packFA_line P line cs"] g l by auto
qed

lemma peek_Some: "peek s = (Some c, s0) \<Longrightarrow> s0 = s \<and> good s \<and> buf s \<noteq> []"
  by (auto simp: peek_def split: if_splits list.splits)

text \<open>
  The loop \<open>while (in.peek() != EOF)\<close> of \<open>packFA\<close>, after the thread has skipped to its
  first block. The result is what the thread appends to its file, one element for each
  block. With \<open>BlockLine = 0\<close> the loop would read nothing and never end (\<open>None\<close>).
\<close>

function packFA_loop ::
  "packers \<Rightarrow> std_shuffle \<Rightarrow> EnDecrypto \<Rightarrow> byte \<Rightarrow> istream \<Rightarrow> bytes list option" where
  "packFA_loop P swaps st threadID s =
     (case peek s of
        (None, _) \<Rightarrow> Some []
      | (Some c, s0) \<Rightarrow>
          if BlockLine st = 0 then None
          else
            case packFA_block P (unat (BlockLine st)) s0 ([], []) of (cs, s1) \<Rightarrow>
              map_option
                ((#) (write_chunk threadID
                        (frame_context (shuffle_context swaps st (flush_seq P cs)))))
                (packFA_loop P swaps st threadID ((ignore_line ^^ skip_count st) s1)))"
  by pat_completeness auto
termination
proof (relation "measure (\<lambda>(P, swaps, st, threadID, s). length (buf s))")
  show "wf (measure (\<lambda>(P, swaps, st, threadID, s). length (buf s)))" by simp
next
  fix P :: packers and swaps :: std_shuffle and st :: EnDecrypto and threadID :: byte
    and s s0 s1 :: istream and x c x2 and cs :: "bytes \<times> bytes"
  assume a: "(x, s0) = peek s" "x = Some c" "BlockLine st \<noteq> 0"
    "(cs, s1) = packFA_block P (unat (BlockLine st)) s0 ([], [])"
  have p: "s0 = s \<and> good s \<and> buf s \<noteq> []" using a(1,2) peek_Some[of s c s0] by simp
  have pos: "0 < unat (BlockLine st)" using a(3) by (simp add: unat_gt_0)
  have s1: "s1 = snd (packFA_block P (unat (BlockLine st)) s ([], []))"
    using a(4) p by (metis snd_conv)
  have "length (buf ((ignore_line ^^ skip_count st) s1)) \<le> length (buf s1)"
    by (rule ignore_lines_buf_le)
  also have "\<dots> < length (buf s)"
    unfolding s1 using packFA_block_buf_less[of s "unat (BlockLine st)"] p pos by simp
  finally show "((P, swaps, st, threadID, (ignore_line ^^ skip_count st) s1), P, swaps, st, threadID, s)
        \<in> measure (\<lambda>(P, swaps, st, threadID, s). length (buf s))" by simp
qed

declare packFA_loop.simps [simp del]

text \<open>
  \<open>packFA\<close>: the lines ignored at the beginning are \<open>(u64) threadID*BlockLine\<close>. The
  result is the content of the file \<open>PK_FILENAME<t>\<close>, taken to be new.
\<close>

definition packFA :: "packers \<Rightarrow> std_shuffle \<Rightarrow> EnDecrypto \<Rightarrow> bytes \<Rightarrow> byte \<Rightarrow> bytes list option" where
  "packFA P swaps st inFile threadID =
     packFA_loop P swaps st threadID
       ((ignore_line ^^ (unat threadID * unat (BlockLine st))) (open_file inFile))"

text \<open>
  One record of a FASTQ block: header, sequence, the ignored \<open>+\<close> line, quality scores.
  Each line is packed only when \<open>getline\<close> left the stream good. \<open>line.substr(1)\<close> of
  an empty header line throws \<open>std::out_of_range\<close>, which ends the program (\<open>None\<close>).
\<close>

fun packFQ_block :: "packers \<Rightarrow> nat \<Rightarrow> istream \<Rightarrow> bytes \<Rightarrow> (bytes \<times> istream) option" where
  "packFQ_block P 0 s ctx = Some (ctx, s)"
| "packFQ_block P (Suc k) s ctx =
     (case getline s [] of (line1, s1) \<Rightarrow>
      if good s1 \<and> line1 = [] then None
      else
        case getline s1 line1 of (line2, s2) \<Rightarrow>
        case getline (ignore_line s2) line2 of (line3, s4) \<Rightarrow>
          packFQ_block P k s4
            (ctx
             @ (if good s1 then packHdr P (tl line1) @ [254] else [])
             @ (if good s2 then packSeq_3to1 P line2 @ [254] else [])
             @ (if good s4 then packQS P line3 @ [254] else [])))"

lemma packFQ_block_buf_le:
  "packFQ_block P k s ctx = Some (c, s') \<Longrightarrow> length (buf s') \<le> length (buf s)"
proof (induction k arbitrary: s ctx)
  case 0
  then show ?case by simp
next
  case (Suc k)
  obtain line1 s1 where g1: "getline s [] = (line1, s1)" by (cases "getline s []")
  obtain line2 s2 where g2: "getline s1 line1 = (line2, s2)" by (cases "getline s1 line1")
  obtain line3 s4 where g3: "getline (ignore_line s2) line2 = (line3, s4)"
    by (cases "getline (ignore_line s2) line2")
  have "length (buf s4) \<le> length (buf (ignore_line s2))"
    using getline_buf_le[of "ignore_line s2" line2] g3 by simp
  also have "\<dots> \<le> length (buf s2)" by (rule ignore_line_buf_le)
  also have "\<dots> \<le> length (buf s1)" using getline_buf_le[of s1 line1] g2 by simp
  also have "\<dots> \<le> length (buf s)" using getline_buf_le[of s "[]"] g1 by simp
  finally have le: "length (buf s4) \<le> length (buf s)" .
  from Suc.prems g1 g2 g3 obtain ctx where
    "packFQ_block P k s4 ctx = Some (c, s')"
    by (auto split: if_splits)
  from Suc.IH[OF this] le show ?case by simp
qed

lemma packFQ_block_buf_less:
  assumes "packFQ_block P k s ctx = Some (c, s')" "good s" "buf s \<noteq> []" "0 < k"
  shows "length (buf s') < length (buf s)"
proof -
  obtain j where k: "k = Suc j" using assms(4) by (cases k) auto
  obtain line1 s1 where g1: "getline s [] = (line1, s1)" by (cases "getline s []")
  obtain line2 s2 where g2: "getline s1 line1 = (line2, s2)" by (cases "getline s1 line1")
  obtain line3 s4 where g3: "getline (ignore_line s2) line2 = (line3, s4)"
    by (cases "getline (ignore_line s2) line2")
  have "length (buf s4) \<le> length (buf (ignore_line s2))"
    using getline_buf_le[of "ignore_line s2" line2] g3 by simp
  also have "\<dots> \<le> length (buf s2)" by (rule ignore_line_buf_le)
  also have "\<dots> \<le> length (buf s1)" using getline_buf_le[of s1 line1] g2 by simp
  also have "\<dots> < length (buf s)" using getline_buf_less[OF assms(2,3), of "[]"] g1 by simp
  finally have less: "length (buf s4) < length (buf s)" .
  from assms(1) k g1 g2 g3 obtain ctx where
    "packFQ_block P j s4 ctx = Some (c, s')"
    by (auto split: if_splits)
  from packFQ_block_buf_le[OF this] less show ?thesis by simp
qed

text \<open>
  The loop \<open>while (in.peek() != EOF)\<close> of \<open>packFQ\<close>. Its block loop is
  \<open>for (u64 l = 0; l != BlockLine; l += 4)\<close>, which ends only when \<open>BlockLine\<close> is a
  multiple of 4; with \<open>BlockLine = 0\<close> nothing is read and the outer loop never ends.
\<close>

function packFQ_loop ::
  "packers \<Rightarrow> std_shuffle \<Rightarrow> EnDecrypto \<Rightarrow> byte \<Rightarrow> istream \<Rightarrow> bytes list option" where
  "packFQ_loop P swaps st threadID s =
     (case peek s of
        (None, _) \<Rightarrow> Some []
      | (Some c, s0) \<Rightarrow>
          if BlockLine st = 0 \<or> unat (BlockLine st) mod 4 \<noteq> 0 then None
          else
            case packFQ_block P (unat (BlockLine st) div 4) s0 [] of
              None \<Rightarrow> None
            | Some (ctx, s1) \<Rightarrow>
                map_option
                  ((#) (write_chunk threadID (frame_context (shuffle_context swaps st ctx))))
                  (packFQ_loop P swaps st threadID ((ignore_line ^^ skip_count st) s1)))"
  by pat_completeness auto
termination
proof (relation "measure (\<lambda>(P, swaps, st, threadID, s). length (buf s))")
  show "wf (measure (\<lambda>(P, swaps, st, threadID, s). length (buf s)))" by simp
next
  fix P :: packers and swaps :: std_shuffle and st :: EnDecrypto and threadID :: byte
    and s s0 s1 :: istream and x c x2 and ctx :: bytes and y
  assume a: "(x, s0) = peek s" "x = Some c"
    "\<not> (BlockLine st = 0 \<or> unat (BlockLine st) mod 4 \<noteq> 0)"
    "packFQ_block P (unat (BlockLine st) div 4) s0 [] = Some y" "(ctx, s1) = y"
  have p: "s0 = s \<and> good s \<and> buf s \<noteq> []" using a(1,2) peek_Some[of s c s0] by simp
  have "0 < unat (BlockLine st)" using a(3) by (simp add: unat_gt_0)
  moreover have "unat (BlockLine st) mod 4 = 0" using a(3) by simp
  ultimately have pos: "0 < unat (BlockLine st) div 4" by presburger
  have blk: "packFQ_block P (unat (BlockLine st) div 4) s [] = Some (ctx, s1)"
    using a(4,5) p by simp
  have "length (buf ((ignore_line ^^ skip_count st) s1)) \<le> length (buf s1)"
    by (rule ignore_lines_buf_le)
  also have "\<dots> < length (buf s)"
    using packFQ_block_buf_less[OF blk _ _ pos] p by simp
  finally show "((P, swaps, st, threadID, (ignore_line ^^ skip_count st) s1), P, swaps, st, threadID, s)
        \<in> measure (\<lambda>(P, swaps, st, threadID, s). length (buf s))" by simp
qed

declare packFQ_loop.simps [simp del]

definition packFQ :: "packers \<Rightarrow> std_shuffle \<Rightarrow> EnDecrypto \<Rightarrow> bytes \<Rightarrow> byte \<Rightarrow> bytes list option" where
  "packFQ P swaps st inFile threadID =
     packFQ_loop P swaps st threadID
       ((ignore_line ^^ (unat threadID * unat (BlockLine st))) (open_file inFile))"

section \<open>Joining the threads' files\<close>

text \<open>
  The inner loop of the join, the same in \<open>compressFA\<close>, \<open>compressFQ\<close>, \<open>decompressFA\<close>
  and \<open>decompressFQ\<close>:
  \<open>while (getline(f, line).good() && line != THR_ID_HDR+to_string(t))\<close> writes the line,
  with a newline before it unless it is the first of the run. The result is the output
  so far, \<open>prevLineNotThrID\<close> and the stream.
\<close>

function join_lines :: "bytes \<Rightarrow> istream \<Rightarrow> bool \<Rightarrow> bytes \<Rightarrow> bytes \<times> bool \<times> istream" where
  "join_lines tag s prev out =
     (case getline s [] of (line, s') \<Rightarrow>
        if good s' \<and> line \<noteq> tag
        then join_lines tag s' True (out @ (if prev then [NL] else []) @ line)
        else (out, prev, s'))"
  by pat_completeness auto
termination
  by (relation "measure (\<lambda>(tag, s, prev, out). length (buf s))")
     (auto dest: getline_good_shorter[OF sym])

declare join_lines.simps [simp del]

text \<open>
  One pass \<open>for (t = 0; t != n_threads; ++t)\<close> over the threads' streams. The
  decompressors add \<open>if (prevLineNotThrID) cout << '\n'\<close> after each run (\<open>nl\<close>).
\<close>

fun join_pass :: "bool \<Rightarrow> nat list \<Rightarrow> istream list \<Rightarrow> bytes \<Rightarrow> bytes \<times> istream list" where
  "join_pass nl [] ss out = (out, ss)"
| "join_pass nl (t # ts) ss out =
     (case join_lines (THR_ID_HDR @ to_string t) (ss ! t) False out of
        (out', prev, s') \<Rightarrow>
          join_pass nl ts (ss[t := s']) (if nl \<and> prev then out' @ [NL] else out'))"

lemma join_lines_measure_le:
  "stream_measure (snd (snd (join_lines tag s prev out))) \<le> stream_measure s"
proof (induction tag s prev out rule: join_lines.induct)
  case (1 tag s prev out)
  obtain line s' where g: "getline s [] = (line, s')" by (cases "getline s []")
  have le: "stream_measure s' \<le> stream_measure s" using getline_measure_le[of s "[]"] g by simp
  show ?case
  proof (cases "good s' \<and> line \<noteq> tag")
    case True
    then show ?thesis
      using "1.IH"[OF g[symmetric]] le g by (subst join_lines.simps) (simp split: prod.splits)
  next
    case False
    then show ?thesis using le g by (subst join_lines.simps) auto
  qed
qed

lemma join_lines_measure_less:
  assumes "good s"
  shows "stream_measure (snd (snd (join_lines tag s prev out))) < stream_measure s"
proof -
  obtain line s' where g: "getline s [] = (line, s')" by (cases "getline s []")
  have less: "stream_measure s' < stream_measure s"
    using getline_measure_less[OF assms, of "[]"] g by simp
  show ?thesis
  proof (cases "good s' \<and> line \<noteq> tag")
    case True
    then show ?thesis
      using join_lines_measure_le[of tag s' True "out @ (if prev then [NL] else []) @ line"] less g
      by (subst join_lines.simps) (simp split: prod.splits)
  next
    case False
    then show ?thesis using less g by (subst join_lines.simps) auto
  qed
qed

lemma join_pass_keeps:
  "i \<notin> set ts \<Longrightarrow> snd (join_pass nl ts ss out) ! i = ss ! i"
proof (induction ts arbitrary: ss out)
  case Nil
  show ?case by simp
next
  case (Cons t ts)
  obtain o1 p1 s1 where j: "join_lines (THR_ID_HDR @ to_string t) (ss ! t) False out = (o1, p1, s1)"
    by (cases "join_lines (THR_ID_HDR @ to_string t) (ss ! t) False out") auto
  have "snd (join_pass nl ts (ss[t := s1]) (if nl \<and> p1 then o1 @ [NL] else o1)) ! i
        = (ss[t := s1]) ! i"
    using Cons.prems by (intro Cons.IH) simp
  moreover have "(ss[t := s1]) ! i = ss ! i" using Cons.prems by simp
  ultimately show ?case using j by simp
qed

text \<open>
  The outer loop \<open>while (!f[0].eof())\<close>. With no thread there is no stream \<open>f[0]\<close>,
  and a first stream whose \<open>failbit\<close> is set while \<open>eofbit\<close> is not never ends the loop:
  both are \<open>None\<close>.
\<close>

function join_files :: "bool \<Rightarrow> istream list \<Rightarrow> bytes \<Rightarrow> bytes option" where
  "join_files nl ss out =
     (if ss = [] then None
      else if eofbit (ss ! 0) then Some out
      else if failbit (ss ! 0) then None
      else case join_pass nl [0..<length ss] ss out of (out', ss') \<Rightarrow> join_files nl ss' out')"
  by pat_completeness auto
termination
proof (relation "measure (\<lambda>(nl, ss, out). stream_measure (ss ! 0))")
  show "wf (measure (\<lambda>(nl, ss, out). stream_measure (ss ! 0)))" by simp
next
  fix nl :: bool and ss ss' :: "istream list" and out out' :: bytes and x
  assume a: "ss \<noteq> []" "\<not> eofbit (ss ! 0)" "\<not> failbit (ss ! 0)"
    "(out', ss') = join_pass nl [0..<length ss] ss out"
  have g: "good (ss ! 0)" using a(2,3) by (simp add: good_def)
  have upt: "[0..<length ss] = 0 # [1..<length ss]" using a(1) by (simp add: upt_conv_Cons)
  obtain o1 p1 s1 where j: "join_lines (THR_ID_HDR @ to_string 0) (ss ! 0) False out = (o1, p1, s1)"
    by (cases "join_lines (THR_ID_HDR @ to_string 0) (ss ! 0) False out") auto
  have s1: "stream_measure s1 < stream_measure (ss ! 0)"
    using join_lines_measure_less[OF g, of "THR_ID_HDR @ to_string 0" False out] j by simp
  have "join_pass nl [0..<length ss] ss out
        = join_pass nl [1..<length ss] (ss[0 := s1]) (if nl \<and> p1 then o1 @ [NL] else o1)"
    unfolding upt using j by simp
  then have "ss' = snd (join_pass nl [1..<length ss] (ss[0 := s1]) (if nl \<and> p1 then o1 @ [NL] else o1))"
    using a(4) by (metis snd_conv)
  then have "ss' ! 0 = (ss[0 := s1]) ! 0"
    using join_pass_keeps[of 0 "[1..<length ss]"] by simp
  then have "ss' ! 0 = s1" using a(1) by simp
  then show "((nl, ss', out'), nl, ss, out) \<in> measure (\<lambda>(nl, ss, out). stream_measure (ss ! 0))"
    using s1 by simp
qed

declare join_files.simps [simp del]

section \<open>Compression (compressFA, compressFQ, encrypt)\<close>

text \<open>
  The routine \<open>compressFA\<close> and \<open>compressFQ\<close> select for an alphabet, by its size. The
  bounds are those of the comments beside the tests (more than 39, 16 to 39, 7 to 15,
  4 to 6, 3, 2, else 1). Modelled from the spec: the key lengths \<open>KEYLEN_C1 .. KEYLEN_C5\<close>
  of \<open>def.h\<close> (7, 5, 3, 2, 3). The result is the routine, the alphabet the hash table is
  built from, and the key length. For more than 39 characters the table is built from the
  last 39 and the character after the last one.
\<close>

datatype pack_fn =
  packLarge_3to2 | pack_3to2 | pack_2to1 | pack_3to1 | pack_5to1 | pack_7to1 | pack_1to1

definition select_pack :: "bytes \<Rightarrow> pack_fn \<times> bytes \<times> nat" where
  "select_pack alphabet =
     (let n = length alphabet in
      if 39 < n then (packLarge_3to2, drop (n - 39) alphabet @ [last alphabet + 1], 3)
      else if 15 < n then (pack_3to2, alphabet, 3)
      else if 6 < n then (pack_2to1, alphabet, 2)
      else if n = 6 \<or> n = 5 \<or> n = 4 then (pack_3to1, alphabet, 3)
      else if n = 3 then (pack_5to1, alphabet, 5)
      else if n = 2 then (pack_7to1, alphabet, 7)
      else (pack_1to1, alphabet, 1))"

text \<open>
  The unpacking routines the decompressors select: \<open>unpackLarge_read2B\<close> for more than
  39 characters, \<open>unpack_read2B\<close> for 16 to 39, \<open>unpack_read1B\<close> below. An unpacking
  routine reads the packed text from an iterator on and leaves the iterator where it
  stopped: it is given the text from the iterator on, and returns its output and the
  number of positions it moved the iterator.
\<close>

datatype unpack_fn = unpackLarge_read2B | unpack_read2B | unpack_read1B

definition select_unpack :: "bytes \<Rightarrow> unpack_fn \<times> bytes \<times> nat" where
  "select_unpack alphabet =
     (let n = length alphabet in
      if 39 < n then (unpackLarge_read2B, drop (n - 39) alphabet @ [last alphabet + 1], 3)
      else if 15 < n then (unpack_read2B, alphabet, 3)
      else if 6 < n then (unpack_read1B, alphabet, 2)
      else if n = 6 \<or> n = 5 \<or> n = 4 then (unpack_read1B, alphabet, 3)
      else if n = 3 then (unpack_read1B, alphabet, 5)
      else if n = 2 then (unpack_read1B, alphabet, 7)
      else (unpack_read1B, alphabet, 1))"

text \<open>
  What the program takes from \<open>pack.h\<close>, the standard library and Crypto++: the
  sequence packer, the symbol packers (routine, table alphabet, key length, input), the
  shuffle, the generator behind \<open>rng_type\<close>, AES in CBC mode (key, IV, text), and the
  unpacking routines. Decryption can throw, which ends the program (\<open>None\<close>).
\<close>

record library =
  lib_packSeq :: "bytes \<Rightarrow> bytes"
  lib_pack :: "pack_fn \<Rightarrow> bytes \<Rightarrow> nat \<Rightarrow> bytes \<Rightarrow> bytes"
  lib_swaps :: std_shuffle
  lib_draw :: "u64 \<Rightarrow> nat \<Rightarrow> nat"
  lib_cbc_encrypt :: "bytes \<Rightarrow> bytes \<Rightarrow> bytes \<Rightarrow> bytes"
  lib_cbc_decrypt :: "bytes \<Rightarrow> bytes \<Rightarrow> bytes \<Rightarrow> bytes option"
  lib_unpack :: "unpack_fn \<Rightarrow> bytes \<Rightarrow> nat \<Rightarrow> bytes \<Rightarrow> bytes \<times> nat"
  lib_unpackSeqFA :: "bytes \<Rightarrow> bytes \<times> nat"
  lib_unpackSeqFQ :: "bytes \<Rightarrow> bytes \<times> nat"

definition packers_for :: "library \<Rightarrow> bytes \<Rightarrow> bytes \<Rightarrow> packers" where
  "packers_for L headers qscores =
     \<lparr>packSeq_3to1 = lib_packSeq L,
      packHdr = (case select_pack headers of (f, a, k) \<Rightarrow> lib_pack L f a k),
      packQS = (case select_pack qscores of (f, a, k) \<Rightarrow> lib_pack L f a k)\<rparr>"

text \<open>All the threads' files, or \<open>None\<close> when one thread has no result.\<close>

fun all_some :: "'a option list \<Rightarrow> 'a list option" where
  "all_some [] = Some []"
| "all_some (x # xs) =
     (case x of None \<Rightarrow> None
      | Some y \<Rightarrow> (case all_some xs of None \<Rightarrow> None | Some ys \<Rightarrow> Some (y # ys)))"

text \<open>The thread numbers of \<open>for (t = 0; t != n_threads; ++t)\<close>.\<close>

definition thread_ids :: "byte \<Rightarrow> byte list" where
  "thread_ids n = map of_nat [0..<unat n]"

definition shuffle_byte :: "EnDecrypto \<Rightarrow> byte" where
  "shuffle_byte st = (if \<not> disable_shuffle st then 128 else 129)"

text \<open>
  The file \<open>PCKD_FILENAME\<close> that \<open>compressFA\<close> writes: 127, the shuffle byte, the headers'
  alphabet, 254, the threads' chunks joined, and 252.
\<close>

definition compressFA_packed :: "library \<Rightarrow> u32 \<Rightarrow> EnDecrypto \<Rightarrow> bytes \<Rightarrow> bytes option" where
  "compressFA_packed L BLOCK_SIZE st0 inFile =
     (case gatherHdrBs BLOCK_SIZE inFile of
        None \<Rightarrow> None
      | Some (bl, headers) \<Rightarrow>
          (case all_some (map (packFA (packers_for L headers []) (lib_swaps L)
                                 (st0\<lparr>BlockLine := bl\<rparr>) inFile)
                            (thread_ids (n_threads st0))) of
             None \<Rightarrow> None
           | Some pk \<Rightarrow>
               (case join_files False (map (\<lambda>chunks. open_file (concat chunks)) pk) [] of
                  None \<Rightarrow> None
                | Some joined \<Rightarrow>
                    Some ([127, shuffle_byte st0] @ headers @ [254] @ joined @ [252]))))"

text \<open>
  The file \<open>PCKD_FILENAME\<close> that \<open>compressFQ\<close> writes: the shuffle byte, the headers'
  alphabet, 254, the quality scores' alphabet, 253 or a newline by \<open>hasFQjustPlus\<close>, the
  threads' chunks joined, and 252.
\<close>

definition plus_byte :: "bytes \<Rightarrow> byte" where
  "plus_byte inFile = (if hasFQjustPlus inFile then 253 else NL)"

definition compressFQ_header :: "EnDecrypto \<Rightarrow> bytes \<Rightarrow> bytes \<Rightarrow> bytes \<Rightarrow> bytes" where
  "compressFQ_header st headers qscores inFile =
     [shuffle_byte st] @ headers @ [254] @ qscores @ [plus_byte inFile]"

definition compressFQ_packed :: "library \<Rightarrow> u32 \<Rightarrow> EnDecrypto \<Rightarrow> bytes \<Rightarrow> bytes option" where
  "compressFQ_packed L BLOCK_SIZE st0 inFile =
     (case gatherHdrQs BLOCK_SIZE inFile of
        None \<Rightarrow> None
      | Some (bl, headers, qscores) \<Rightarrow>
          (case all_some (map (packFQ (packers_for L headers qscores) (lib_swaps L)
                                 (st0\<lparr>BlockLine := bl\<rparr>) inFile)
                            (thread_ids (n_threads st0))) of
             None \<Rightarrow> None
           | Some pk \<Rightarrow>
               (case join_files False (map (\<lambda>chunks. open_file (concat chunks)) pk) [] of
                  None \<Rightarrow> None
                | Some joined \<Rightarrow>
                    Some (compressFQ_header st0 headers qscores inFile @ joined @ [252]))))"

text \<open>
  The watermark \<open>"#cryfa v" + to_string(VERSION_CRYFA) + "." + to_string(RELEASE_CRYFA) + "\n"\<close>;
  the two numbers are constants of \<open>def.h\<close>, parameters here.
\<close>

definition watermark :: "nat \<times> nat \<Rightarrow> bytes" where
  "watermark v = ascii ''#cryfa v'' @ to_string (fst v) @ ascii ''.'' @ to_string (snd v) @ [NL]"

text \<open>\<open>encrypt\<close> writes the packed file, encrypted with the key and IV of the password.\<close>

definition encrypt :: "library \<Rightarrow> EnDecrypto \<Rightarrow> bytes \<Rightarrow> bytes" where
  "encrypt L st packed =
     lib_cbc_encrypt L (buildKey (lib_draw L) (keyFile st)) (buildIV (lib_draw L) (keyFile st)) packed"

text \<open>What \<open>compressFA\<close> and \<open>compressFQ\<close> write to the standard output.\<close>

definition compressFA :: "library \<Rightarrow> u32 \<Rightarrow> nat \<times> nat \<Rightarrow> EnDecrypto \<Rightarrow> bytes \<Rightarrow> bytes option" where
  "compressFA L BLOCK_SIZE v st inFile =
     map_option (\<lambda>packed. watermark v @ encrypt L st packed)
       (compressFA_packed L BLOCK_SIZE st inFile)"

definition compressFQ :: "library \<Rightarrow> u32 \<Rightarrow> nat \<times> nat \<Rightarrow> EnDecrypto \<Rightarrow> bytes \<Rightarrow> bytes option" where
  "compressFQ L BLOCK_SIZE v st inFile =
     map_option (\<lambda>packed. watermark v @ encrypt L st packed)
       (compressFQ_packed L BLOCK_SIZE st inFile)"

section \<open>Numbers read from text (stoi, stoull)\<close>

text \<open>
  \<open>std::stoi\<close> and \<open>std::stoull\<close> skip white space, take a sign and the decimal digits
  that follow, and throw \<open>std::invalid_argument\<close> when there is no digit and
  \<open>std::out_of_range\<close> when the number does not fit. \<open>stoull\<close> negates a number with a
  minus sign in 64 bits.
\<close>

definition isspace :: "byte \<Rightarrow> bool" where
  "isspace c = (c = 32 \<or> (9 \<le> c \<and> c \<le> 13))"

definition isdigit :: "byte \<Rightarrow> bool" where
  "isdigit c = (48 \<le> c \<and> c \<le> 57)"

fun digits_value :: "nat \<Rightarrow> bytes \<Rightarrow> nat" where
  "digits_value acc [] = acc"
| "digits_value acc (c # cs) =
     (if isdigit c then digits_value (10 * acc + (unat c - 48)) cs else acc)"

datatype conv_error = invalid_argument | out_of_range

definition strto :: "bytes \<Rightarrow> (bool \<times> nat) option" where
  "strto s =
     (let s1 = dropWhile isspace s;
          neg = (s1 \<noteq> [] \<and> hd s1 = 45);
          s2 = (if s1 \<noteq> [] \<and> (hd s1 = 45 \<or> hd s1 = 43) then tl s1 else s1)
      in if s2 \<noteq> [] \<and> isdigit (hd s2) then Some (neg, digits_value 0 s2) else None)"

definition stoi :: "bytes \<Rightarrow> conv_error + int" where
  "stoi s =
     (case strto s of
        None \<Rightarrow> Inl invalid_argument
      | Some (neg, v) \<Rightarrow>
          if (if neg then 2147483648 < v else 2147483647 < v) then Inl out_of_range
          else Inr (if neg then - int v else int v))"

definition stoull :: "bytes \<Rightarrow> conv_error + u64" where
  "stoull s =
     (case strto s of
        None \<Rightarrow> Inl invalid_argument
      | Some (neg, v) \<Rightarrow>
          if 18446744073709551615 < v then Inl out_of_range
          else Inr (if neg then - of_nat v else of_nat v))"

section \<open>Streams with a position\<close>

text \<open>
  The decompressors read the decrypted file through \<open>get\<close>, \<open>peek\<close>, \<open>seekg\<close> and
  \<open>tellg\<close>: the whole content, the read position and the two state bits. \<open>get(c)\<close>
  leaves \<open>c\<close> as it was when it fails; a variable not yet assigned is \<open>None\<close>.
  \<open>seekg\<close> first clears \<open>eofbit\<close> and does nothing more when \<open>failbit\<close> is set; \<open>tellg\<close>
  is -1 when \<open>failbit\<close> is set.
\<close>

record pstream =
  data :: bytes
  gpos :: nat
  eofb :: bool
  failb :: bool

definition popen :: "bytes \<Rightarrow> pstream" where
  "popen f = \<lparr>data = f, gpos = 0, eofb = False, failb = False\<rparr>"

definition pgood :: "pstream \<Rightarrow> bool" where
  "pgood s = (\<not> eofb s \<and> \<not> failb s)"

definition get :: "pstream \<Rightarrow> byte option \<Rightarrow> byte option \<times> pstream" where
  "get s c =
     (if \<not> pgood s then (c, s\<lparr>failb := True\<rparr>)
      else if gpos s < length (data s) then (Some (data s ! gpos s), s\<lparr>gpos := Suc (gpos s)\<rparr>)
      else (c, s\<lparr>eofb := True, failb := True\<rparr>))"

definition ppeek :: "pstream \<Rightarrow> byte option \<times> pstream" where
  "ppeek s =
     (if \<not> pgood s then (None, s\<lparr>failb := True\<rparr>)
      else if gpos s < length (data s) then (Some (data s ! gpos s), s)
      else (None, s\<lparr>eofb := True\<rparr>))"

text \<open>\<open>in.ignore(1)\<close>\<close>

definition ignore1 :: "pstream \<Rightarrow> pstream" where
  "ignore1 s =
     (if \<not> pgood s then s\<lparr>failb := True\<rparr>
      else if gpos s < length (data s) then s\<lparr>gpos := Suc (gpos s)\<rparr>
      else s\<lparr>eofb := True\<rparr>)"

definition tellg :: "pstream \<Rightarrow> int" where
  "tellg s = (if failb s then - 1 else int (gpos s))"

definition seekg :: "pstream \<Rightarrow> int \<Rightarrow> pstream" where
  "seekg s p =
     (if failb s then s\<lparr>eofb := False\<rparr>
      else if p < 0 then s\<lparr>eofb := False, failb := True\<rparr>
      else s\<lparr>eofb := False, gpos := nat p\<rparr>)"

text \<open>\<open>in.seekg((std::streamoff) offset, std::ios_base::cur)\<close>\<close>

definition seekg_cur :: "pstream \<Rightarrow> u64 \<Rightarrow> pstream" where
  "seekg_cur s offset = seekg s (int (gpos s) + sint offset)"

lemma get_advances:
  "get s c = (c', s') \<Longrightarrow> \<not> failb s' \<Longrightarrow>
   length (data s') - gpos s' < length (data s) - gpos s"
  by (auto simp: get_def split: if_splits)

text \<open>
  \<open>while (in.get(c) && !stop(c)) str += c;\<close> The result is the string, the last value of
  \<open>c\<close> and the stream.
\<close>

function read_until ::
  "(byte \<Rightarrow> bool) \<Rightarrow> pstream \<Rightarrow> byte option \<Rightarrow> bytes \<Rightarrow> bytes \<times> byte option \<times> pstream" where
  "read_until stop s c acc =
     (case get s c of (c', s') \<Rightarrow>
        (case c' of
           None \<Rightarrow> (acc, c', s')
         | Some b \<Rightarrow>
             if \<not> failb s' \<and> \<not> stop b then read_until stop s' c' (acc @ [b])
             else (acc, c', s')))"
  by pat_completeness auto
termination
  by (relation "measure (\<lambda>(stop, s, c, acc). length (data s) - gpos s)")
     (auto dest: get_advances[OF sym])

declare read_until.simps [simp del]

section \<open>Decompression (decompressFA, decompressFQ and the unpacking threads)\<close>

record unpackers =
  unpackHdr :: "bytes \<Rightarrow> bytes \<times> nat"
  unpackQS :: "bytes \<Rightarrow> bytes \<times> nat"
  unpackSeqFA_3to1 :: "bytes \<Rightarrow> bytes \<times> nat"
  unpackSeqFQ_3to1 :: "bytes \<Rightarrow> bytes \<times> nat"

definition unpackers_for :: "library \<Rightarrow> bytes \<Rightarrow> bytes \<Rightarrow> unpackers" where
  "unpackers_for L headers qscores =
     \<lparr>unpackHdr = (case select_unpack headers of (f, a, k) \<Rightarrow> lib_unpack L f a k),
      unpackQS = (case select_unpack qscores of (f, a, k) \<Rightarrow> lib_unpack L f a k),
      unpackSeqFA_3to1 = lib_unpackSeqFA L,
      unpackSeqFQ_3to1 = lib_unpackSeqFQ L\<rparr>"

text \<open>
  The loop \<open>do { ... } while (++i != decText.end())\<close> of \<open>unpackHS\<close> and \<open>unpackHL\<close>,
  with \<open>i\<close> the index of the iterator. A byte 253 starts a header, written after \<open>></\<close>;
  anything else is a sequence. Reading at or past the end of the text has no defined
  result.
\<close>

function decodeFA :: "unpackers \<Rightarrow> bytes \<Rightarrow> nat \<Rightarrow> bytes \<Rightarrow> bytes option" where
  "decodeFA U txt i out =
     (if length txt \<le> i then None
      else
        case (if txt ! i = 253
              then (case unpackHdr U (drop (Suc i) txt) of
                      (h, k) \<Rightarrow> (out @ [62] @ h @ [NL], Suc i + k))
              else (case unpackSeqFA_3to1 U (drop i txt) of
                      (sq, k) \<Rightarrow> (out @ sq @ [NL], i + k))) of
          (out', j) \<Rightarrow> if Suc j = length txt then Some out' else decodeFA U txt (Suc j) out')"
  by pat_completeness auto
termination
  by (relation "measure (\<lambda>(U, txt, i, out). length txt - i)")
     (auto split: if_splits prod.splits)

declare decodeFA.simps [simp del]

text \<open>
  The same loop of the four FASTQ unpackers: \<open>@\<close> and the header, the sequence, the
  line \<open>+\<close> (followed by the header when \<open>justPlus\<close> is false), the quality scores.
\<close>

text \<open>\<open>justPlus ? "+" : "+" + plusMore\<close>, with \<open>plusMore\<close> the header just unpacked.\<close>

definition plus_line :: "bool \<Rightarrow> bytes \<Rightarrow> bytes" where
  "plus_line jp plusMore = (if jp then [43] else [43] @ plusMore)"

function decodeFQ :: "unpackers \<Rightarrow> bool \<Rightarrow> bytes \<Rightarrow> nat \<Rightarrow> bytes \<Rightarrow> bytes option" where
  "decodeFQ U jp txt i out =
     (if length txt \<le> i then None
      else
        case unpackHdr U (drop i txt) of (h, k1) \<Rightarrow>
        case unpackSeqFQ_3to1 U (drop (Suc (i + k1)) txt) of (sq, k2) \<Rightarrow>
        case unpackQS U (drop (Suc (Suc (i + k1) + k2)) txt) of (q, k3) \<Rightarrow>
          if Suc (Suc (Suc (i + k1) + k2) + k3) = length txt
          then Some (out @ [64] @ h @ [NL] @ sq @ [NL] @ plus_line jp h @ [NL] @ q @ [NL])
          else decodeFQ U jp txt (Suc (Suc (Suc (i + k1) + k2) + k3))
                 (out @ [64] @ h @ [NL] @ sq @ [NL] @ plus_line jp h @ [NL] @ q @ [NL]))"
  by pat_completeness auto
termination
  by (relation "measure (\<lambda>(U, jp, txt, i, out). length txt - i)") auto

declare decodeFQ.simps [simp del]

text \<open>
  The text of a chunk as a thread decodes it: unshuffled exactly when the member
  \<open>shuffled\<close> is set.
\<close>

definition chunk_text :: "library \<Rightarrow> EnDecrypto \<Rightarrow> bytes \<Rightarrow> bytes" where
  "chunk_text L st decText =
     (if shuffled st then unshufflePkd (lib_swaps L) (keyFile st) decText else decText)"

text \<open>\<open>for (u64 u = chunkSize; u--;) { in.get(c); decText += c; }\<close>\<close>

fun read_chunk :: "nat \<Rightarrow> pstream \<Rightarrow> byte option \<Rightarrow> bytes \<Rightarrow> bytes option \<times> byte option \<times> pstream" where
  "read_chunk 0 s c acc = (Some acc, c, s)"
| "read_chunk (Suc u) s c acc =
     (case get s c of (c', s') \<Rightarrow>
        (case c' of None \<Rightarrow> (None, c', s') | Some b \<Rightarrow> read_chunk u s' c' (acc @ [b])))"

text \<open>
  The loop \<open>for (byte t = n_threads; t--;)\<close> that moves a thread to its next chunk: at
  \<open>endPos\<close> a byte 253 starts a size, which sets \<open>chunkSize\<close>, \<open>begPos\<close> and \<open>endPos\<close>.
  \<open>stoull\<close> can throw (\<open>None\<close>).
\<close>

fun next_chunk ::
  "nat \<Rightarrow> int \<Rightarrow> pstream \<Rightarrow> byte option \<Rightarrow> int \<Rightarrow> u64 \<Rightarrow> (pstream \<times> byte option \<times> int \<times> u64) option" where
  "next_chunk 0 endPos s c begPos chunkSize = Some (s, c, begPos, chunkSize)"
| "next_chunk (Suc t) endPos s c begPos chunkSize =
     (case get (seekg s endPos) c of (c1, s1) \<Rightarrow>
        (case c1 of
           None \<Rightarrow> None
         | Some b \<Rightarrow>
             if b = 253 then
               (case read_until (\<lambda>x. x = 254) s1 c1 [] of (str, c2, s2) \<Rightarrow>
                  (case stoull str of
                     Inl e \<Rightarrow> None
                   | Inr sz \<Rightarrow> next_chunk t (tellg s2 + sint sz) s2 c2 (tellg s2) sz))
             else next_chunk t endPos s1 c1 begPos chunkSize))"

text \<open>
  The loop \<open>while (in.peek() != EOF)\<close> of an unpacking thread; \<open>decode\<close> is the loop
  over the text of one chunk. The result is what the thread appends to its file. The loop
  need not end.
\<close>

partial_function (option) unpack_loop ::
  "(bytes \<Rightarrow> bytes option) \<Rightarrow> nat \<Rightarrow> bytes \<Rightarrow> pstream \<Rightarrow> byte option \<Rightarrow> int \<Rightarrow> u64 \<Rightarrow> bytes
     \<Rightarrow> bytes option" where
  "unpack_loop decode n tag s c begPos chunkSize out =
     (case ppeek s of (pk, s0) \<Rightarrow>
        (case pk of
           None \<Rightarrow> Some out
         | Some b \<Rightarrow>
             (case read_chunk (unat chunkSize) (seekg s0 begPos) c [] of (txt, c1, s1) \<Rightarrow>
                (case txt of
                   None \<Rightarrow> None
                 | Some decText \<Rightarrow>
                     (case decode decText of
                        None \<Rightarrow> None
                      | Some lines \<Rightarrow>
                          (case next_chunk n (tellg s1) s1 c1 begPos chunkSize of
                             None \<Rightarrow> None
                           | Some (s2, c2, begPos', chunkSize') \<Rightarrow>
                               unpack_loop decode n tag s2 c2 begPos' chunkSize'
                                 (out @ tag @ [NL] @ lines)))))))"

text \<open>
  The loop of \<open>decompressFA\<close> and \<open>decompressFQ\<close> that starts the threads: thread \<open>t\<close>
  gets the position and size of the \<open>t\<close>-th chunk, and the loop stops before a byte 252.
  The result lists the threads started.
\<close>

fun dispatch :: "nat \<Rightarrow> nat \<Rightarrow> pstream \<Rightarrow> byte option \<Rightarrow> (nat \<times> int \<times> u64) list option" where
  "dispatch 0 t s c = Some []"
| "dispatch (Suc m) t s c =
     (case get s c of (c1, s1) \<Rightarrow>
        (case c1 of
           None \<Rightarrow> None
         | Some b \<Rightarrow>
             if b = 253 then
               (case read_until (\<lambda>x. x = 254) s1 c1 [] of (str, c2, s2) \<Rightarrow>
                  (case stoull str of
                     Inl e \<Rightarrow> None
                   | Inr offset \<Rightarrow>
                       map_option ((#) (t, tellg s2, offset))
                         (case ppeek (seekg_cur s2 offset) of (pk, s3) \<Rightarrow>
                            if pk = Some 252 then Some [] else dispatch m (Suc t) s3 c2)))
             else
               (case ppeek s1 of (pk, s3) \<Rightarrow>
                  if pk = Some 252 then Some [] else dispatch m (Suc t) s3 c1)))"

text \<open>
  The files \<open>UPK_FILENAME<t>\<close> of the threads \<open>0 .. n_threads-1\<close>: a thread that was not
  started leaves no file. \<open>None\<close> when a thread has no result.
\<close>

definition run_unpack ::
  "(bytes \<Rightarrow> bytes option) \<Rightarrow> nat \<Rightarrow> bytes \<Rightarrow> (nat \<times> int \<times> u64) list \<Rightarrow> bytes option list option" where
  "run_unpack decode n dec started =
     all_some
       (map (\<lambda>t. case map_of started t of
                    None \<Rightarrow> Some None
                  | Some (begPos, chunkSize) \<Rightarrow>
                      map_option Some
                        (unpack_loop decode n (THR_ID_HDR @ to_string t) (popen dec) None
                           begPos chunkSize []))
            [0..<n])"

text \<open>
  The decompressors after the file header is read: the threads are started on the rest
  of the decrypted file, and their files are joined on the standard output. \<open>st\<close> is
  the object with the members the header sets; \<open>c\<close> and \<open>s\<close> are the variable \<open>c\<close> and
  the stream after the header.
\<close>

definition decompressFA_body ::
  "library \<Rightarrow> EnDecrypto \<Rightarrow> bytes \<Rightarrow> bytes \<Rightarrow> byte option \<Rightarrow> pstream \<Rightarrow> bytes option" where
  "decompressFA_body L st dec headers c s =
     (case dispatch (unat (n_threads st)) 0 s c of
        None \<Rightarrow> None
      | Some started \<Rightarrow>
          (case run_unpack
                  (\<lambda>decText. decodeFA (unpackers_for L headers []) (chunk_text L st decText) 0 [])
                  (unat (n_threads st)) dec started of
             None \<Rightarrow> None
           | Some files \<Rightarrow> join_files True (map open_opt files) []))"

definition decompressFQ_body ::
  "library \<Rightarrow> EnDecrypto \<Rightarrow> bytes \<Rightarrow> bytes \<Rightarrow> bytes \<Rightarrow> byte option \<Rightarrow> pstream \<Rightarrow> bytes option" where
  "decompressFQ_body L st dec headers qscores c s =
     (case dispatch (unat (n_threads st)) 0 s c of
        None \<Rightarrow> None
      | Some started \<Rightarrow>
          (case run_unpack
                  (\<lambda>decText. decodeFQ (unpackers_for L headers qscores) (justPlus st)
                                (chunk_text L st decText) 0 [])
                  (unat (n_threads st)) dec started of
             None \<Rightarrow> None
           | Some files \<Rightarrow> join_files True (map open_opt files) []))"

text \<open>
  \<open>decompressFA\<close> reads the file the decryption wrote: one byte is skipped, the next sets
  \<open>shuffled = (c == (char) 128)\<close>, and the bytes up to 254 are the headers' alphabet.
  The result is what it writes to the standard output.
\<close>

definition decompressFA :: "library \<Rightarrow> EnDecrypto \<Rightarrow> bytes \<Rightarrow> bytes option" where
  "decompressFA L st dec =
     (case get (ignore1 (popen dec)) None of (c0, s1) \<Rightarrow>
        (case c0 of
           None \<Rightarrow> None
         | Some b \<Rightarrow>
             (case read_until (\<lambda>x. x = 254) s1 c0 [] of (headers, c1, s2) \<Rightarrow>
                decompressFA_body L (st\<lparr>shuffled := (b = 128)\<rparr>) dec headers c1 s2)))"

text \<open>
  \<open>decompressFQ\<close>: the first byte sets \<open>shuffled\<close>, the bytes up to 254 are the headers'
  alphabet, the bytes up to a newline or 253 the quality scores' alphabet, and
  \<open>if (c == '\n') justPlus = false\<close>.
\<close>

definition justPlus_after :: "bool \<Rightarrow> byte option \<Rightarrow> bool" where
  "justPlus_after jp c = (if c = Some NL then False else jp)"

definition decompressFQ :: "library \<Rightarrow> EnDecrypto \<Rightarrow> bytes \<Rightarrow> bytes option" where
  "decompressFQ L st dec =
     (case get (popen dec) None of (c0, s1) \<Rightarrow>
        (case c0 of
           None \<Rightarrow> None
         | Some b \<Rightarrow>
             (case read_until (\<lambda>x. x = 254) s1 c0 [] of (headers, c1, s2) \<Rightarrow>
              case read_until (\<lambda>x. x = NL \<or> x = 253) s2 c1 [] of (qscores, c2, s3) \<Rightarrow>
                decompressFQ_body L
                  (st\<lparr>shuffled := (b = 128), justPlus := justPlus_after (justPlus st) c2\<rparr>)
                  dec headers qscores c2 s3)))"

section \<open>The driver (decrypt, main)\<close>

datatype diagnostic = FailedOpening | NotCryfaFile | NotFastaFastq | PasswordRefused

text \<open>
  \<open>decrypt\<close>: \<open>exit(1)\<close> with a message when the input cannot be opened or when its
  first line and a newline are not the watermark (\<open>Inl\<close>); else the rest of the file is
  decrypted into the file the decompressors read.
\<close>

definition decrypt :: "library \<Rightarrow> nat \<times> nat \<Rightarrow> EnDecrypto \<Rightarrow> bytes option \<Rightarrow> diagnostic + bytes option" where
  "decrypt L v st inFile =
     (case inFile of
        None \<Rightarrow> Inl FailedOpening
      | Some f \<Rightarrow>
          (case getline (open_file f) [] of (line, s) \<Rightarrow>
             if line @ [NL] \<noteq> watermark v then Inl NotCryfaFile
             else Inr (lib_cbc_decrypt L (buildKey (lib_draw L) (keyFile st))
                         (buildIV (lib_draw L) (keyFile st)) (buf s))))"

text \<open>
  What \<open>getopt_long\<close> returns for the options of the command line, in order: a short
  option without argument, a long option that only stores its letter in its flag
  variable (\<open>case 0\<close>), \<open>-k\<close> or \<open>--key\<close> with the file name, \<open>-t\<close> or \<open>--thread\<close> with its
  argument, or an option that is not known.
\<close>

datatype cli_option = Short byte | Long byte | Key bytes | Thread bytes | Invalid

record flags =
  h_flag :: bool
  a_flag :: bool
  v_flag :: bool
  d_flag :: bool
  s_flag :: bool
  k_flag :: bool
  keyFileName :: bytes

definition no_flags :: flags where
  "no_flags = \<lparr>h_flag = False, a_flag = False, v_flag = False, d_flag = False, s_flag = False,
                k_flag = False, keyFileName = []\<rparr>"

definition set_flag :: "byte \<Rightarrow> flags \<Rightarrow> flags" where
  "set_flag c fl =
     (if c = 104 then fl\<lparr>h_flag := True\<rparr>
      else if c = 97 then fl\<lparr>a_flag := True\<rparr>
      else if c = 118 then fl\<lparr>v_flag := True\<rparr>
      else if c = 115 then fl\<lparr>s_flag := True\<rparr>
      else if c = 100 then fl\<lparr>d_flag := True\<rparr>
      else fl)"

text \<open>
  What \<open>main\<close> takes from \<open>fcn.h\<close>, \<open>def.h\<close> and its surroundings. Modelled from the spec:
  \<open>checkPass\<close> ends the program with status 1 when it refuses the password file; here it
  returns whether it accepts. \<open>fileType\<close> returns \<open>A\<close>, \<open>Q\<close>, \<open>S\<close> or \<open>n\<close>. \<open>files\<close> maps a
  file name to its content, and \<open>new_object\<close> is the \<open>EnDecrypto\<close> object as constructed,
  with \<open>n_threads = DEFAULT_N_THR\<close>.
\<close>

record driver =
  checkPass :: "bytes \<Rightarrow> bool \<Rightarrow> bool"
  fileType :: "bytes \<Rightarrow> byte"
  BLOCK_SIZE :: u32
  version :: "nat \<times> nat"
  files :: "bytes \<Rightarrow> bytes option"
  new_object :: EnDecrypto

text \<open>
  One turn of the option loop. \<open>case 't': cryptObj.n_threads = (byte) stoi(string(optarg))\<close>;
  an exception of \<open>stoi\<close> is not caught (\<open>None\<close>).
\<close>

definition option_step :: "driver \<Rightarrow> cli_option \<Rightarrow> flags \<times> EnDecrypto \<Rightarrow> (flags \<times> EnDecrypto) option" where
  "option_step D opt p =
     (case p of (fl, obj) \<Rightarrow>
        (case opt of
           Long c \<Rightarrow> Some (set_flag c fl, obj)
         | Short c \<Rightarrow>
             Some (set_flag c fl,
                   if c = 118 then obj\<lparr>verbose := True\<rparr>
                   else if c = 115 then obj\<lparr>disable_shuffle := True\<rparr>
                   else obj)
         | Key name \<Rightarrow>
             Some (fl\<lparr>k_flag := True, keyFileName := name\<rparr>,
                   obj\<lparr>keyFile := (case files D name of None \<Rightarrow> [] | Some b \<Rightarrow> b)\<rparr>)
         | Thread arg \<Rightarrow>
             (case stoi arg of
                Inl e \<Rightarrow> None
              | Inr v \<Rightarrow> Some (fl, obj\<lparr>n_threads := word_of_int v\<rparr>))
         | Invalid \<Rightarrow> Some (fl, obj)))"

fun option_loop :: "driver \<Rightarrow> cli_option list \<Rightarrow> flags \<times> EnDecrypto \<Rightarrow> (flags \<times> EnDecrypto) option" where
  "option_loop D [] p = Some p"
| "option_loop D (opt # opts) p =
     (case option_step D opt p of None \<Rightarrow> None | Some p' \<Rightarrow> option_loop D opts p')"

text \<open>
  How the program ends: with an exit status, the error messages written and the standard
  output, or abnormally (an exception nobody catches, an operation with no defined
  result, a loop that never ends).
\<close>

datatype outcome = Status nat "diagnostic list" bytes | Abnormal

definition run_compress :: "bytes option \<Rightarrow> outcome" where
  "run_compress r = (case r of None \<Rightarrow> Abnormal | Some out \<Rightarrow> Status 0 [] out)"

text \<open>
  \<open>main\<close> after the option loop. A file that cannot be opened reads as an empty one.
\<close>

definition after_options :: "driver \<Rightarrow> library \<Rightarrow> bytes \<Rightarrow> flags \<times> EnDecrypto \<Rightarrow> outcome" where
  "after_options D L inFileName p =
     (case p of (fl, obj) \<Rightarrow>
        if \<not> h_flag fl \<and> \<not> a_flag fl \<and> \<not> checkPass D (keyFileName fl) (k_flag fl)
        then Status 1 [PasswordRefused] []
        else if d_flag fl then
          (case decrypt L (version D) obj (files D inFileName) of
             Inl d \<Rightarrow> Status 1 [d] []
           | Inr None \<Rightarrow> Abnormal
           | Inr (Some dec) \<Rightarrow>
               run_compress
                 (if dec \<noteq> [] \<and> hd dec = 127 then decompressFA L obj dec
                  else decompressFQ L obj dec))
        else if \<not> h_flag fl \<and> \<not> a_flag fl then
          (if fileType D inFileName = 65 then
             run_compress (compressFA L (BLOCK_SIZE D) (version D) obj
                             (case files D inFileName of None \<Rightarrow> [] | Some f \<Rightarrow> f))
           else if fileType D inFileName = 81 then
             run_compress (compressFQ L (BLOCK_SIZE D) (version D) obj
                             (case files D inFileName of None \<Rightarrow> [] | Some f \<Rightarrow> f))
           else if fileType D inFileName = 83 then Status 0 [] []
           else Status 0 [NotFastaFastq] [])
        else Status 0 [] [])"

definition main :: "driver \<Rightarrow> library \<Rightarrow> bytes \<Rightarrow> cli_option list \<Rightarrow> outcome" where
  "main D L inFileName opts =
     (case option_loop D opts (no_flags, new_object D) of
        None \<Rightarrow> Abnormal
      | Some p \<Rightarrow> after_options D L inFileName p)"

section \<open>Notions used to state the properties\<close>

text \<open>A text file from its lines: every line is followed by a newline.\<close>

definition text_of :: "bytes list \<Rightarrow> bytes" where
  "text_of ls = concat (map (\<lambda>l. l @ [NL]) ls)"

text \<open>The lines of a file that a newline ends, in order.\<close>

function complete_lines :: "bytes \<Rightarrow> bytes list" where
  "complete_lines b =
     (case split_line b of (l, None) \<Rightarrow> [] | (l, Some r) \<Rightarrow> l # complete_lines r)"
  by pat_completeness auto
termination
  by (relation "measure length") (auto dest: split_line_shorter[OF sym])

declare complete_lines.simps [simp del]

text \<open>A header line of a FASTA file, as \<open>packFA\<close> and \<open>gatherHdrBs\<close> test it.\<close>

definition is_header :: "bytes \<Rightarrow> bool" where
  "is_header l = (l \<noteq> [] \<and> hd l = 62)"

text \<open>
  The packed text of a list of FASTA lines: a header is 253, the packed header without
  its first character, and 254; a longest run of lines that are not headers is packed as
  one sequence, the lines joined by the byte 252, and followed by 254.
\<close>

definition join_252 :: "bytes list \<Rightarrow> bytes" where
  "join_252 ls = butlast (concat (map (\<lambda>l. l @ [252]) ls))"

function pack_lines :: "packers \<Rightarrow> bytes list \<Rightarrow> bytes" where
  "pack_lines P [] = []"
| "pack_lines P (l # ls) =
     (if is_header l then [253] @ packHdr P (tl l) @ [254] @ pack_lines P ls
      else packSeq_3to1 P (join_252 (l # takeWhile (\<lambda>x. \<not> is_header x) ls)) @ [254]
           @ pack_lines P (dropWhile (\<lambda>x. \<not> is_header x) ls))"
  by pat_completeness auto
termination
  by (relation "measure (\<lambda>(P, ls). length ls)")
     (auto simp: less_Suc_eq_le length_dropWhile_le)









text \<open>
  The file of thread \<open>t\<close> from the texts of its chunks: every text comes after the line
  \<open>THR=<t>\<close> and is followed by a newline. \<open>no_tag_line\<close> says that no line of a text is
  the line \<open>THR=<t>\<close> itself. \<open>at_chunk t cs k\<close> is the stream on that file when the next
  thing to read is chunk \<open>k\<close>, and at the end of the file when there is no such chunk.
\<close>

definition thread_file :: "nat \<Rightarrow> bytes list \<Rightarrow> bytes" where
  "thread_file t cs = concat (map (\<lambda>c. THR_ID_HDR @ to_string t @ [NL] @ c @ [NL]) cs)"

definition no_tag_line :: "nat \<Rightarrow> bytes \<Rightarrow> bool" where
  "no_tag_line t c = (THR_ID_HDR @ to_string t \<notin> set (complete_lines (c @ [NL])))"

definition at_chunk :: "nat \<Rightarrow> bytes list \<Rightarrow> nat \<Rightarrow> istream" where
  "at_chunk t cs k =
     (if k < length cs
      then \<lparr>buf = cs ! k @ [NL] @ thread_file t (drop (Suc k) cs), eofbit = False, failbit = False\<rparr>
      else \<lparr>buf = [], eofbit = True, failbit = True\<rparr>)"

text \<open>
  The texts of the threads' chunks in rounds: round \<open>r\<close> takes chunk \<open>r\<close> of every thread
  that has one, in the order of the threads, and there are as many rounds as thread 0 has
  chunks. With \<open>nl\<close> a newline follows every text.
\<close>

definition rounds :: "bool \<Rightarrow> bytes list list \<Rightarrow> bytes" where
  "rounds nl css =
     concat (map (\<lambda>r. concat (map (\<lambda>cs. if r < length cs
                                          then cs ! r @ (if nl then [NL] else []) else []) css))
               [0..<length (hd css)])"

text \<open>
  What an unpacking thread is to write. Of the packed texts from its first chunk on, the
  thread takes every \<open>n\<close>-th, \<open>n\<close> the number of threads; for each it writes the line
  \<open>THR=<t>\<close> and the lines that \<open>decode\<close> makes of the text, and it has no result when
  \<open>decode\<close> has none.
\<close>

fun every_nth :: "nat \<Rightarrow> 'a list \<Rightarrow> 'a list" where
  "every_nth n [] = []"
| "every_nth n (x # xs) = x # every_nth n (drop (n - 1) xs)"

fun thread_output :: "(bytes \<Rightarrow> bytes option) \<Rightarrow> bytes \<Rightarrow> bytes list \<Rightarrow> bytes \<Rightarrow> bytes option" where
  "thread_output decode tag [] out = Some out"
| "thread_output decode tag (p # ps) out =
     (case decode p of
        None \<Rightarrow> None
      | Some lines \<Rightarrow> thread_output decode tag ps (out @ tag @ [NL] @ lines))"

text \<open>
  A FASTQ record as the unpackers write it, from its header without \<open>@\<close>, its sequence
  and its quality scores: the third line is \<open>+\<close> alone when \<open>jp\<close> is true and \<open>+\<close>
  followed by the header when it is false.
\<close>

definition fq_record :: "bool \<Rightarrow> bytes \<times> bytes \<times> bytes \<Rightarrow> bytes" where
  "fq_record jp r =
     (case r of (h, sq, q) \<Rightarrow>
        [64] @ h @ [NL] @ sq @ [NL] @ (if jp then [43] else [43] @ h) @ [NL] @ q @ [NL])"

text \<open>An output that is empty or ends with a newline.\<close>

definition ends_lines :: "bytes \<Rightarrow> bool" where
  "ends_lines out = (out = [] \<or> last out = NL)"

text \<open>
  The state of \<open>main\<close> after \<open>-s\<close> (\<open>b\<close> true) or \<open>--disable_shuffle\<close> (\<open>b\<close> false); the
  long option only stores its letter in \<open>s_flag\<close>.
\<close>

definition with_s :: "bool \<Rightarrow> flags \<times> EnDecrypto \<Rightarrow> flags \<times> EnDecrypto" where
  "with_s b p = (case p of (fl, obj) \<Rightarrow>
      (fl\<lparr>s_flag := True\<rparr>, obj\<lparr>disable_shuffle := (b \<or> disable_shuffle obj)\<rparr>))"



definition spec_BLOCK_SIZE :: u32 where
  "spec_BLOCK_SIZE = 65536"

text \<open>
  A library and a driver for examples. Every packing routine copies its input, every
  unpacking routine copies the text up to the next byte 254, the shuffle exchanges
  nothing and the cipher leaves the text as it is; the password file is accepted when
  \<open>-k\<close> is given, and the input is a FASTA file.
\<close>

definition copy_until_254 :: "bytes \<Rightarrow> bytes \<times> nat" where
  "copy_until_254 txt = (takeWhile (\<lambda>x. x \<noteq> 254) txt, length (takeWhile (\<lambda>x. x \<noteq> 254) txt))"

definition copy_library :: library where
  "copy_library =
     \<lparr>lib_packSeq = (\<lambda>x. x),
      lib_pack = (\<lambda>f a k x. x),
      lib_swaps = (\<lambda>seed n. []),
      lib_draw = (\<lambda>seed k. k),
      lib_cbc_encrypt = (\<lambda>key iv x. x),
      lib_cbc_decrypt = (\<lambda>key iv x. Some x),
      lib_unpack = (\<lambda>f a k. copy_until_254),
      lib_unpackSeqFA = copy_until_254,
      lib_unpackSeqFQ = copy_until_254\<rparr>"

text \<open>The same library with a shuffle that exchanges the first and the last element.\<close>

definition swap_library :: library where
  "swap_library = copy_library\<lparr>lib_swaps := (\<lambda>seed n. [(0, n - 1)])\<rparr>"

definition example_object :: EnDecrypto where
  "example_object =
     \<lparr>n_threads = 1, disable_shuffle = False, verbose = False, BlockLine = 0,
      shuffled = False, justPlus = True, keyFile = ascii ''passw0rd''\<rparr>"

definition example_driver :: driver where
  "example_driver =
     \<lparr>checkPass = (\<lambda>name k. k),
      fileType = (\<lambda>name. 65),
      BLOCK_SIZE = spec_BLOCK_SIZE,
      version = (1, 0),
      files = (\<lambda>name. None),
      new_object = example_object\<rparr>"

section \<open>Key and IV derivation: what the code computes\<close>

lemma seed_loop_unroll:
  "0 < i \<Longrightarrow> seed_loop pwd i (seed, g) =
     seed_loop pwd (i - 1)
       (seed + (scast (pwd ! (i - 1)) * of_nat (engine_step g - 1)
                + of_nat (engine_step (engine_step g) - 1)),
        engine_step (engine_step g))"
  by (cases i) (simp_all add: my_rand_def)

lemma spec_seed_loop_unroll:
  "0 < i \<Longrightarrow> spec_seed_loop pwd i (seed, g) =
     spec_seed_loop pwd (i - 1)
       (seed + scast (pwd ! (i - 1)) * (of_nat (engine_step g - 1)
                + of_nat (engine_step (engine_step g) - 1)),
        engine_step (engine_step g))"
  by (cases i) (simp_all add: my_rand_def)

lemma ascii_passw0rd: "ascii ''passw0rd'' = [112, 97, 115, 115, 119, 48, 114, 100]"
  by (simp add: ascii_def)

lemmas seed_eval = byte_size_def key_srand_arg_def iv_srand_arg_def my_srand_def
  my_rand_def engine_step_def minstd_modulus_def

lemma key_seed_passw0rd: "key_seed (ascii ''passw0rd'') = 3497519079"
  unfolding ascii_passw0rd by (simp add: key_seed_def seed_eval seed_loop_unroll)

lemma spec_key_seed_passw0rd: "spec_key_seed (ascii ''passw0rd'') = 1486132021"
  unfolding ascii_passw0rd by (simp add: spec_key_seed_def seed_eval spec_seed_loop_unroll)

lemma iv_seed_passw0rd: "iv_seed (ascii ''passw0rd'') = 3539183168"
  unfolding ascii_passw0rd by (simp add: iv_seed_def seed_eval seed_loop_unroll)

lemma spec_iv_seed_passw0rd: "spec_iv_seed (ascii ''passw0rd'') = 2538175258"
  unfolding ascii_passw0rd by (simp add: spec_iv_seed_def seed_eval spec_seed_loop_unroll)

text \<open>
  Claim C2, as stated, fails: for the password \<open>passw0rd\<close> the seed the code computes
  for the key differs from \<open>password[i] * (rand() + rand())\<close> summed and reduced modulo
  \<open>2^32 - 1\<close>, and so does the seed for the IV.
\<close>

theorem key_seed_spec_formula_counterexample:
  "key_seed (ascii ''passw0rd'') \<noteq> spec_key_seed (ascii ''passw0rd'')
   \<and> iv_seed (ascii ''passw0rd'') \<noteq> spec_iv_seed (ascii ''passw0rd'')"
  by (simp add: key_seed_passw0rd spec_key_seed_passw0rd iv_seed_passw0rd spec_iv_seed_passw0rd)

lemma rand_from_shift:
  "rand_from (engine_step (engine_step g)) (2 * k) = rand_from g (2 * Suc k)"
  "rand_from (engine_step (engine_step g)) (2 * k + 1) = rand_from g (2 * Suc k + 1)"
  by (simp_all add: rand_from_def funpow_swap1)

lemma seed_loop_sum:
  "fst (seed_loop pwd i (seed, g)) =
     seed + (\<Sum>k<i. scast (pwd ! (i - 1 - k)) * of_nat (rand_from g (2 * k))
                     + of_nat (rand_from g (2 * k + 1)))"
proof (induction i arbitrary: seed g)
  case 0
  show ?case by simp
next
  case (Suc i)
  have r0: "rand_from g 0 = engine_step g - 1" by (simp add: rand_from_def)
  have r1: "rand_from g (Suc 0) = engine_step (engine_step g) - 1" by (simp add: rand_from_def)
  have "fst (seed_loop pwd (Suc i) (seed, g)) =
        fst (seed_loop pwd i
              (seed + (scast (pwd ! i) * of_nat (rand_from g 0) + of_nat (rand_from g 1)),
               engine_step (engine_step g)))"
    by (simp add: my_rand_def r0 r1)
  also have "\<dots> = seed + (scast (pwd ! i) * of_nat (rand_from g 0) + of_nat (rand_from g 1))
       + (\<Sum>k<i. scast (pwd ! (i - 1 - k)) * of_nat (rand_from g (2 * Suc k))
                  + of_nat (rand_from g (2 * Suc k + 1)))"
    unfolding Suc.IH rand_from_shift by (simp only: add.assoc)
  also have "\<dots> = seed + (\<Sum>k<Suc i. scast (pwd ! (Suc i - 1 - k)) * of_nat (rand_from g (2 * k))
                  + of_nat (rand_from g (2 * k + 1)))"
    unfolding sum.lessThan_Suc_shift by (simp add: add.assoc)
  finally show ?case .
qed

text \<open>
  Claim C2, amended: for every password of at least 8 bytes, with \<open>n\<close> the low 8 bits of
  its length, the key seed is the sum, over the bytes from the last of the first \<open>n\<close> down
  to the first, of the sign-extended byte times one draw plus the next draw,
  \<open>password[i] * rand() + rand()\<close>, in 64-bit arithmetic, reduced modulo \<open>2^32 - 1\<close>; the
  generator is seeded with \<open>24593 * (password[0] * password[2]) + 49157\<close>. The IV seed is
  the same sum after seeding with \<open>7919 * password[2] * password[5] + 75653\<close>. Each of the
  16 key and IV bytes is a draw of the generator started from that seed, modulo 255, the
  last byte of the array drawn first.
\<close>

theorem key_iv_seed_closed_form:
  assumes "8 \<le> length pwd"
  shows "key_seed pwd =
           (\<Sum>k<byte_size pwd.
               scast (pwd ! (byte_size pwd - 1 - k))
                 * of_nat (rand_from (my_srand (24593 * word_of_int (sint (pwd ! 0) * sint (pwd ! 2)) + 49157)) (2 * k))
               + of_nat (rand_from (my_srand (24593 * word_of_int (sint (pwd ! 0) * sint (pwd ! 2)) + 49157)) (2 * k + 1)))
           mod 4294967295
       \<and> iv_seed pwd =
           (\<Sum>k<byte_size pwd.
               scast (pwd ! (byte_size pwd - 1 - k))
                 * of_nat (rand_from (my_srand (7919 * scast (pwd ! 2) * scast (pwd ! 5) + 75653)) (2 * k))
               + of_nat (rand_from (my_srand (7919 * scast (pwd ! 2) * scast (pwd ! 5) + 75653)) (2 * k + 1)))
           mod 4294967295
       \<and> buildKey draw pwd = map (\<lambda>i. of_nat (draw (key_seed pwd) (15 - i) mod 255)) [0..<16]
       \<and> buildIV draw pwd = map (\<lambda>i. of_nat (draw (iv_seed pwd) (15 - i) mod 255)) [0..<16]"
  by (simp add: key_seed_def iv_seed_def seed_loop_sum key_srand_arg_def iv_srand_arg_def
        buildKey_def buildIV_def fill16_def)

text \<open>
  Claim C2, witness: the amended statement at the password \<open>passw0rd\<close>, whose 8 bytes
  seed the generator with 316806997.
\<close>

theorem key_iv_seed_closed_form_witness:
  "8 \<le> length (ascii ''passw0rd'')
   \<and> key_seed (ascii ''passw0rd'') =
       (\<Sum>k<8. scast (ascii ''passw0rd'' ! (7 - k)) * of_nat (rand_from 316806997 (2 * k))
               + of_nat (rand_from 316806997 (2 * k + 1))) mod 4294967295
   \<and> length (buildKey (\<lambda>seed k. k) (ascii ''passw0rd'')) = 16"
proof -
  have h: "8 \<le> length (ascii ''passw0rd'')" by (simp add: ascii_def)
  have b: "byte_size (ascii ''passw0rd'') = 8" by (simp add: byte_size_def ascii_def)
  have a: "my_srand (24593 * word_of_int (sint (ascii ''passw0rd'' ! 0) * sint (ascii ''passw0rd'' ! 2)) + 49157)
           = 316806997"
    by (simp add: ascii_passw0rd my_srand_def minstd_modulus_def)
  from key_iv_seed_closed_form[OF h, of "\<lambda>seed k. k"] show ?thesis
    unfolding b a using h by simp
qed

section \<open>Shuffling and unshuffling\<close>

lemma iter_swap_length [simp]: "length (iter_swap p xs) = length xs"
  by (cases p) (simp add: iter_swap_def)

lemma fold_iter_swap_length [simp]: "length (fold iter_swap ps xs) = length xs"
  by (induction ps arbitrary: xs) simp_all

lemma iter_swap_map: "iter_swap p (map f xs) = map f (iter_swap p xs)"
  by (cases p) (simp add: iter_swap_def map_update)

lemma fold_iter_swap_map: "fold iter_swap ps (map f xs) = map f (fold iter_swap ps xs)"
  by (induction ps arbitrary: xs) (simp_all add: iter_swap_map)

lemma iter_swap_set: "set (iter_swap p xs) = set xs"
  by (cases p) (simp add: iter_swap_def set_swap)

lemma fold_iter_swap_set: "set (fold iter_swap ps xs) = set xs"
  by (induction ps arbitrary: xs) (simp_all add: iter_swap_set)

lemma shuffle_as_positions:
  "shuffle swaps seed xs = map (\<lambda>i. xs ! i) (shuffle swaps seed [0..<length xs])"
proof -
  have "shuffle swaps seed xs = fold iter_swap (swaps seed (length xs)) (map (\<lambda>i. xs ! i) [0..<length xs])"
    by (simp add: shuffle_def map_nth)
  also have "\<dots> = map (\<lambda>i. xs ! i) (fold iter_swap (swaps seed (length xs)) [0..<length xs])"
    by (rule fold_iter_swap_map)
  finally show ?thesis by (simp add: shuffle_def)
qed

lemma store_all:
  "set vs \<subseteq> {0..<length t} \<Longrightarrow>
   fold (\<lambda>(vI, c) t. t[vI := c]) (zip vs (map f vs)) t
     = map (\<lambda>i. if i \<in> set vs then f i else t ! i) [0..<length t]"
proof (induction vs arbitrary: t)
  case Nil
  show ?case by (simp add: map_nth)
next
  case (Cons v vs)
  have "fold (\<lambda>(vI, c) t. t[vI := c]) (zip (v # vs) (map f (v # vs))) t
        = fold (\<lambda>(vI, c) t. t[vI := c]) (zip vs (map f vs)) (t[v := f v])" by simp
  also have "\<dots> = map (\<lambda>i. if i \<in> set vs then f i else (t[v := f v]) ! i) [0..<length (t[v := f v])]"
    using Cons.prems by (intro Cons.IH) simp
  also have "\<dots> = map (\<lambda>i. if i \<in> set (v # vs) then f i else t ! i) [0..<length t]"
    using Cons.prems by (auto simp: nth_list_update)
  finally show ?case .
qed

text \<open>
  Claim C6: for every byte string and every password, \<open>unshufflePkd\<close> applied to the result
  of \<open>shufflePkd\<close> with the same password returns the byte string unchanged.
\<close>

theorem shuffle_unshuffle_identity:
  "unshufflePkd swaps pass (shufflePkd swaps pass xs) = xs"
proof -
  define seed where "seed = un_shuffleSeedGen pass"
  define vPos where "vPos = shuffle swaps seed [0..<length xs]"
  have sh: "shufflePkd swaps pass xs = map (\<lambda>i. xs ! i) vPos"
    unfolding shufflePkd_def vPos_def seed_def by (rule shuffle_as_positions)
  have len: "length (shufflePkd swaps pass xs) = length xs"
    by (simp add: shufflePkd_def shuffle_def)
  have set_vPos: "set vPos = {0..<length xs}"
    unfolding vPos_def shuffle_def by (simp add: fold_iter_swap_set)
  have lv: "length vPos = length xs" by (simp add: vPos_def shuffle_def)
  have "unshufflePkd swaps pass (shufflePkd swaps pass xs)
        = fold (\<lambda>(vI, c) t. t[vI := c]) (zip vPos (map (\<lambda>i. xs ! i) vPos)) (map (\<lambda>i. xs ! i) vPos)"
    unfolding unshufflePkd_def Let_def len sh[symmetric] vPos_def seed_def by (simp add: sh[unfolded vPos_def seed_def])
  also have "\<dots> = map (\<lambda>i. if i \<in> set vPos then xs ! i else (map (\<lambda>i. xs ! i) vPos) ! i)
                     [0..<length (map (\<lambda>i. xs ! i) vPos)]"
    by (rule store_all) (simp add: set_vPos lv)
  also have "\<dots> = map (\<lambda>i. xs ! i) [0..<length xs]"
    using set_vPos lv by simp
  also have "\<dots> = xs" by (rule map_nth)
  finally show ?thesis .
qed

section \<open>The driver: thread count and exit status\<close>

lemma stoi_256: "stoi (ascii ''256'') = Inr 256"
  by (simp add: stoi_def strto_def ascii_def isspace_def isdigit_def)

lemma length_thread_ids: "length (thread_ids n) = unat n"
  by (simp add: thread_ids_def)

text \<open>
  Claim C9: the thread count given with \<open>-t\<close> is \<open>(byte) stoi\<close> of the argument, so the
  number of worker threads is the argument modulo 256; for \<open>-t 256\<close> it is 0 and no
  packing thread is started.
\<close>

theorem thread_count_low_8_bits:
  "(case stoi arg of
      Inl e \<Rightarrow> option_step D (Thread arg) (fl, obj) = None
    | Inr v \<Rightarrow>
        option_step D (Thread arg) (fl, obj) = Some (fl, obj\<lparr>n_threads := word_of_int v\<rparr>)
        \<and> int (length (thread_ids (n_threads (obj\<lparr>n_threads := word_of_int v\<rparr>)))) = v mod 256)
   \<and> option_step D (Thread (ascii ''256'')) (fl, obj) = Some (fl, obj\<lparr>n_threads := 0\<rparr>)
   \<and> thread_ids (n_threads (obj\<lparr>n_threads := 0\<rparr>)) = []
   \<and> map (packFA P swaps (obj\<lparr>n_threads := 0\<rparr>) inFile) (thread_ids (n_threads (obj\<lparr>n_threads := 0\<rparr>))) = []"
proof -
  have "int (unat (word_of_int v :: byte)) = v mod 256" for v
    by (simp add: unat_eq_nat_uint uint_word_of_int)
  then show ?thesis
    by (simp add: option_step_def stoi_256 length_thread_ids thread_ids_def split: sum.splits)
qed

text \<open>
  Claim C8, at the failing input: the password file is accepted and \<open>fileType\<close> answers
  \<open>n\<close> (neither FASTA nor FASTQ). \<open>main\<close> writes its error message and returns 0, where
  the claim requires status 1 for a format error.
\<close>

theorem bad_file_type_exits_with_0:
  "main (D\<lparr>checkPass := \<lambda>name k. True, fileType := \<lambda>name. 110\<rparr>) L inFileName [Key keyName]
     = Status 0 [NotFastaFastq] []"
  by (simp add: main_def after_options_def option_step_def no_flags_def)

text \<open>
  The other part of claim C8 holds: when the first line of the input is not the
  watermark, \<open>-d\<close> ends with the message and status 1.
\<close>

lemma watermark_mismatch_exits_with_1:
  assumes "option_loop D opts (no_flags, new_object D) = Some (fl, obj)"
    and "d_flag fl" and "h_flag fl \<or> a_flag fl \<or> checkPass D (keyFileName fl) (k_flag fl)"
    and "files D inFileName = Some f"
    and "fst (getline (open_file f) []) @ [NL] \<noteq> watermark (version D)"
  shows "main D L inFileName opts = Status 1 [NotCryfaFile] []"
  using assms by (auto simp: main_def after_options_def decrypt_def split: prod.splits)

section \<open>Decompression: the shuffle flag and the end of the output\<close>

lemma chunk_text_disable_shuffle:
  "chunk_text L (st\<lparr>disable_shuffle := d\<rparr>) = chunk_text L st"
  by (rule ext) (simp add: chunk_text_def)

lemma decompressFA_body_disable_shuffle:
  "decompressFA_body L (st\<lparr>disable_shuffle := d\<rparr>) = decompressFA_body L st"
  by (intro ext) (simp add: decompressFA_body_def chunk_text_disable_shuffle cong: option.case_cong)

lemma decompressFQ_body_disable_shuffle:
  "decompressFQ_body L (st\<lparr>disable_shuffle := d\<rparr>) = decompressFQ_body L st"
  by (intro ext) (simp add: decompressFQ_body_def chunk_text_disable_shuffle cong: option.case_cong)

lemma decompressFA_disable_shuffle:
  "decompressFA L (st\<lparr>disable_shuffle := d\<rparr>) dec = decompressFA L st dec"
proof -
  have "st\<lparr>disable_shuffle := d, shuffled := x\<rparr> = st\<lparr>shuffled := x, disable_shuffle := d\<rparr>" for x
    by simp
  then show ?thesis
    unfolding decompressFA_def by (simp only: decompressFA_body_disable_shuffle)
qed

lemma decompressFQ_disable_shuffle:
  "decompressFQ L (st\<lparr>disable_shuffle := d\<rparr>) dec = decompressFQ L st dec"
proof -
  have "st\<lparr>disable_shuffle := d, shuffled := x, justPlus := y\<rparr>
        = st\<lparr>shuffled := x, justPlus := y, disable_shuffle := d\<rparr>" for x y
    by simp
  moreover have "justPlus (st\<lparr>disable_shuffle := d\<rparr>) = justPlus st" by simp
  ultimately show ?thesis
    unfolding decompressFQ_def by (simp only: decompressFQ_body_disable_shuffle)
qed

lemma decompressFA_shuffle_byte:
  "decompressFA L st (x # b # rest) =
     (case read_until (\<lambda>x. x = 254) \<lparr>data = x # b # rest, gpos = 2, eofb = False, failb = False\<rparr>
             (Some b) [] of
        (headers, c1, s2) \<Rightarrow>
          decompressFA_body L (st\<lparr>shuffled := (b = 128)\<rparr>) (x # b # rest) headers c1 s2)"
  by (simp add: decompressFA_def get_def ignore1_def popen_def pgood_def numeral_2_eq_2)

lemma decompressFQ_shuffle_byte:
  "decompressFQ L st (b # rest) =
     (case read_until (\<lambda>x. x = 254) \<lparr>data = b # rest, gpos = 1, eofb = False, failb = False\<rparr>
             (Some b) [] of
        (headers, c1, s2) \<Rightarrow>
          (case read_until (\<lambda>x. x = NL \<or> x = 253) s2 c1 [] of
             (qscores, c2, s3) \<Rightarrow>
               decompressFQ_body L
                 (st\<lparr>shuffled := (b = 128), justPlus := justPlus_after (justPlus st) c2\<rparr>)
                 (b # rest) headers qscores c2 s3))"
  by (simp add: decompressFQ_def get_def popen_def pgood_def)

lemma join_lines_prev:
  "join_lines tag s prev out = (out', prev', s') \<Longrightarrow> (prev \<longrightarrow> prev') \<and> (\<not> prev' \<longrightarrow> out' = out)"
proof (induction tag s prev out arbitrary: out' prev' s' rule: join_lines.induct)
  case (1 tag s prev out)
  obtain line s1 where g: "getline s [] = (line, s1)" by (cases "getline s []")
  show ?case
  proof (cases "good s1 \<and> line \<noteq> tag")
    case True
    then have "join_lines tag s1 True (out @ (if prev then [NL] else []) @ line) = (out', prev', s')"
      using "1.prems" g by (subst (asm) join_lines.simps) simp
    from "1.IH"[OF g[symmetric] True this] show ?thesis by simp
  next
    case False
    then show ?thesis using "1.prems" g by (subst (asm) join_lines.simps) auto
  qed
qed

lemma join_pass_ends_lines:
  "ends_lines out \<Longrightarrow> ends_lines (fst (join_pass True ts ss out))"
proof (induction ts arbitrary: ss out)
  case Nil
  then show ?case by simp
next
  case (Cons t ts)
  obtain o1 p1 s1 where j: "join_lines (THR_ID_HDR @ to_string t) (ss ! t) False out = (o1, p1, s1)"
    by (cases "join_lines (THR_ID_HDR @ to_string t) (ss ! t) False out") auto
  have "ends_lines (if p1 then o1 @ [NL] else o1)"
    using join_lines_prev[OF j] Cons.prems by (auto simp: ends_lines_def)
  from Cons.IH[OF this] show ?case using j by simp
qed

lemma join_files_ends_lines:
  "ends_lines out \<Longrightarrow> join_files True ss out = Some r \<Longrightarrow> ends_lines r"
proof (induction "True" ss out rule: join_files.induct)
  case (1 ss out)
  show ?case
  proof (cases "ss = [] \<or> eofbit (ss ! 0) \<or> failbit (ss ! 0)")
    case True
    then show ?thesis using "1.prems" by (subst (asm) join_files.simps) (auto split: if_splits)
  next
    case False
    obtain out' ss' where p: "join_pass True [0..<length ss] ss out = (out', ss')"
      by (cases "join_pass True [0..<length ss] ss out")
    have e: "ends_lines out'" using join_pass_ends_lines[OF "1.prems"(1), of "[0..<length ss]" ss] p by simp
    have "join_files True ss' out' = Some r"
      using "1.prems"(2) False p by (subst (asm) join_files.simps) simp
    from "1.hyps"[OF _ _ _ p[symmetric] e this] False show ?thesis by simp
  qed
qed

lemma decompress_ends_lines:
  "decompressFA L st dec = Some out \<Longrightarrow> ends_lines out"
  "decompressFQ L st dec = Some out \<Longrightarrow> ends_lines out"
  by (auto simp: decompressFA_def decompressFQ_def decompressFA_body_def decompressFQ_body_def
        ends_lines_def[of "[]"]
      split: prod.splits option.splits dest!: join_files_ends_lines[rotated])


text \<open>
  Claim C1, at the failing input: the FASTA file of the lines \<open>>h\<close> and \<open>ACGT\<close> followed
  by \<open>ACG\<close> with no newline after it. Whatever the library, the password, the flags, the
  thread counts and the packed file, neither decompressor writes this file, and \<open>main\<close>
  with \<open>-d\<close> does not write it either: every line they write is followed by a newline.
\<close>

theorem unterminated_last_line_lost:
  "decompressFA L st dec \<noteq> Some (text_of [ascii ''>h'', ascii ''ACGT''] @ ascii ''ACG'')
   \<and> decompressFQ L st dec \<noteq> Some (text_of [ascii ''>h'', ascii ''ACGT''] @ ascii ''ACG'')
   \<and> after_options D L inFileName (fl\<lparr>d_flag := True\<rparr>, obj)
       \<noteq> Status 0 [] (text_of [ascii ''>h'', ascii ''ACGT''] @ ascii ''ACG'')"
proof -
  have n: "\<not> ends_lines (text_of [ascii ''>h'', ascii ''ACGT''] @ ascii ''ACG'')"
    by (simp add: ends_lines_def ascii_def NL_def)
  have a: "decompressFA L st dec \<noteq> Some (text_of [ascii ''>h'', ascii ''ACGT''] @ ascii ''ACG'')"
    for L st dec
    using decompress_ends_lines(1) n by blast
  have b: "decompressFQ L st dec \<noteq> Some (text_of [ascii ''>h'', ascii ''ACGT''] @ ascii ''ACG'')"
    for L st dec
    using decompress_ends_lines(2) n by blast
  have "after_options D L inFileName (fl\<lparr>d_flag := True\<rparr>, obj)
       \<noteq> Status 0 [] (text_of [ascii ''>h'', ascii ''ACGT''] @ ascii ''ACG'')"
    using a b
    by (auto simp: after_options_def run_compress_def split: sum.splits option.splits)
  then show ?thesis using a b by blast
qed

lemma option_step_with_s:
  "option_step D opt (with_s b p) = map_option (with_s b) (option_step D opt p)"
  by (cases p; cases opt) (auto simp: option_step_def with_s_def set_flag_def split: sum.splits)

lemma option_loop_with_s:
  "option_loop D opts (with_s b p) = map_option (with_s b) (option_loop D opts p)"
proof (induction opts arbitrary: p)
  case Nil
  show ?case by simp
next
  case (Cons opt opts)
  show ?case
    by (cases "option_step D opt p") (simp_all add: option_step_with_s Cons.IH)
qed

lemma option_loop_append:
  "option_loop D (xs @ ys) p =
     (case option_loop D xs p of None \<Rightarrow> None | Some p' \<Rightarrow> option_loop D ys p')"
  by (induction xs arbitrary: p) (auto split: option.splits)

lemma option_step_s:
  "option_step D (Short 115) p = Some (with_s True p)"
  "option_step D (Long 115) p = Some (with_s False p)"
  by (cases p; simp add: option_step_def with_s_def set_flag_def)+

lemma decrypt_disable_shuffle:
  "decrypt L v (obj\<lparr>disable_shuffle := x\<rparr>) inFile = decrypt L v obj inFile"
  by (simp add: decrypt_def split: option.splits prod.splits)

lemma after_options_with_s:
  "d_flag (fst p) \<Longrightarrow> after_options D L f (with_s b p) = after_options D L f p"
  by (cases p)
     (simp add: after_options_def with_s_def decrypt_disable_shuffle
        decompressFA_disable_shuffle decompressFQ_disable_shuffle
        split: sum.splits option.splits)

lemma option_step_d_flag:
  "option_step D opt p = Some p' \<Longrightarrow>
   d_flag (fst p) \<or> opt = Short 100 \<or> opt = Long 100 \<Longrightarrow> d_flag (fst p')"
  by (cases p; cases opt) (auto simp: option_step_def set_flag_def split: sum.splits)

lemma option_loop_d_flag:
  "option_loop D opts p = Some p' \<Longrightarrow>
   d_flag (fst p) \<or> Short 100 \<in> set opts \<or> Long 100 \<in> set opts \<Longrightarrow> d_flag (fst p')"
proof (induction opts arbitrary: p)
  case Nil
  then show ?case by simp
next
  case (Cons opt opts)
  from Cons.prems(1) obtain q where q: "option_step D opt p = Some q" "option_loop D opts q = Some p'"
    by (auto split: option.splits)
  have "d_flag (fst q) \<or> Short 100 \<in> set opts \<or> Long 100 \<in> set opts"
    using option_step_d_flag[OF q(1)] Cons.prems(2) by auto
  from Cons.IH[OF q(2) this] show ?case .
qed

lemma main_ignores_s:
  assumes "Short 100 \<in> set (xs @ ys) \<or> Long 100 \<in> set (xs @ ys)"
    and "opt = Short 115 \<or> opt = Long 115"
  shows "main D L f (xs @ opt # ys) = main D L f (xs @ ys)"
proof (cases "option_loop D xs (no_flags, new_object D)")
  case None
  then show ?thesis by (simp add: main_def option_loop_append)
next
  case (Some p)
  obtain b where b: "option_step D opt p = Some (with_s b p)"
    using assms(2) option_step_s by blast
  show ?thesis
  proof (cases "option_loop D ys p")
    case None
    then show ?thesis using Some b by (simp add: main_def option_loop_append option_loop_with_s)
  next
    case (Some p')
    have "option_loop D (xs @ ys) (no_flags, new_object D) = Some p'"
      using \<open>option_loop D xs (no_flags, new_object D) = Some p\<close> Some
      by (simp add: option_loop_append)
    from option_loop_d_flag[OF this] assms(1) have "d_flag (fst p')" by simp
    then show ?thesis
      using \<open>option_loop D xs (no_flags, new_object D) = Some p\<close> Some b
      by (simp add: main_def option_loop_append option_loop_with_s after_options_with_s)
  qed
qed


section \<open>The complete lines of a file and what the streams deliver\<close>

lemma getline_good_line:
  "good s \<Longrightarrow> split_line (buf s) = (l, Some r) \<Longrightarrow> getline s line = (l, s\<lparr>buf := r\<rparr>)"
  by (simp add: getline_def)

lemma getline_good_eof:
  "good s \<Longrightarrow> split_line (buf s) = (l, None) \<Longrightarrow> \<not> good (snd (getline s line))"
  by (simp add: getline_def good_def)

lemma complete_lines_Nil: "split_line b = (l, None) \<Longrightarrow> complete_lines b = []"
  by (subst complete_lines.simps) simp

lemma complete_lines_Cons: "split_line b = (l, Some r) \<Longrightarrow> complete_lines b = l # complete_lines r"
  by (subst complete_lines.simps) simp

lemma complete_lines_cases:
  obtains l where "split_line b = (l, None)" "complete_lines b = []"
  | l r where "split_line b = (l, Some r)" "complete_lines b = l # complete_lines r"
proof (cases "split_line b")
  case (Pair l r)
  then show ?thesis
    by (cases r) (auto intro: that dest: complete_lines_Nil complete_lines_Cons)
qed

lemma getline_lines_Cons:
  assumes "good s" "complete_lines (buf s) = l # ls"
  shows "\<exists>s'. getline s x = (l, s') \<and> good s' \<and> complete_lines (buf s') = ls"
proof (cases "buf s" rule: complete_lines_cases)
  case (1 l')
  then show ?thesis using assms by simp
next
  case (2 l' r)
  then show ?thesis using assms by (auto simp: getline_def good_def)
qed

lemma getline_lines_Nil:
  assumes "good s" "complete_lines (buf s) = []"
  shows "\<not> good (snd (getline s x)) \<and> eofbit (snd (getline s x))"
proof (cases "buf s" rule: complete_lines_cases)
  case (1 l')
  then show ?thesis using assms by (auto simp: getline_def good_def)
next
  case (2 l' r)
  then show ?thesis using assms by simp
qed

lemma ignore_line_lines_Cons:
  assumes "good s" "complete_lines (buf s) = l # ls"
  shows "good (ignore_line s) \<and> complete_lines (buf (ignore_line s)) = ls"
proof (cases "buf s" rule: complete_lines_cases)
  case (1 l')
  then show ?thesis using assms by simp
next
  case (2 l' r)
  then show ?thesis using assms by (auto simp: ignore_line_def good_def)
qed

lemma ignore_line_lines_Nil:
  assumes "good s" "complete_lines (buf s) = []"
  shows "\<not> good (ignore_line s) \<and> eofbit (ignore_line s)"
proof (cases "buf s" rule: complete_lines_cases)
  case (1 l')
  then show ?thesis using assms by (auto simp: ignore_line_def good_def)
next
  case (2 l' r)
  then show ?thesis using assms by simp
qed

lemma ignore_line_not_good:
  "\<not> good s \<Longrightarrow> eofbit s \<Longrightarrow> \<not> good (ignore_line s) \<and> eofbit (ignore_line s)"
  by (simp add: ignore_line_def good_def)

lemma getline_not_good:
  "\<not> good s \<Longrightarrow> eofbit s \<Longrightarrow> \<not> good (snd (getline s x)) \<and> eofbit (snd (getline s x))"
  by (simp add: getline_def good_def)

lemma split_line_lengths: "split_line b = (l, Some r) \<Longrightarrow> length l + length r < length b"
  by (induction b arbitrary: l) (auto split: if_splits prod.splits)

lemma complete_lines_length: "l \<in> set (complete_lines b) \<Longrightarrow> length l < length b"
proof (induction b rule: complete_lines.induct)
  case (1 b)
  show ?case
  proof (cases b rule: complete_lines_cases)
    case (1 l')
    then show ?thesis using "1.prems" by simp
  next
    case (2 l' r)
    then show ?thesis
      using "1.prems" "1.IH"[OF 2(1)[symmetric] refl] split_line_lengths[OF 2(1)] by auto
  qed
qed

lemma split_line_append: "NL \<notin> set l \<Longrightarrow> split_line (l @ NL # r) = (l, Some r)"
  by (induction l) auto

lemma complete_lines_text_of:
  "\<forall>l\<in>set ls. NL \<notin> set l \<Longrightarrow> complete_lines (text_of ls) = ls"
proof (induction ls)
  case Nil
  show ?case by (subst complete_lines.simps) (simp add: text_of_def)
next
  case (Cons l ls)
  have "text_of (l # ls) = l @ NL # text_of ls" by (simp add: text_of_def)
  then have "split_line (text_of (l # ls)) = (l, Some (text_of ls))"
    using Cons.prems split_line_append[of l "text_of ls"] by simp
  then have "complete_lines (text_of (l # ls)) = l # complete_lines (text_of ls)"
    by (rule complete_lines_Cons)
  then show ?case using Cons by simp
qed



lemma example_fasta_lines:
  "complete_lines (text_of [ascii ''>h'', ascii ''AC'', ascii ''GT''])
     = [ascii ''>h'', ascii ''AC'', ascii ''GT'']"
  by (rule complete_lines_text_of) (simp add: ascii_def NL_def)

lemma example_fastq_lines:
  "complete_lines (text_of [ascii ''@r1'', ascii ''ACGN'', ascii ''+'', ascii ''!!!!''])
     = [ascii ''@r1'', ascii ''ACGN'', ascii ''+'', ascii ''!!!!'']"
  by (rule complete_lines_text_of) (simp add: ascii_def NL_def)

lemma example_fastq_plus_lines:
  "complete_lines (text_of [ascii ''@r1'', ascii ''ACGN'', ascii ''+r1'', ascii ''!!!!''])
     = [ascii ''@r1'', ascii ''ACGN'', ascii ''+r1'', ascii ''!!!!'']"
  by (rule complete_lines_text_of) (simp add: ascii_def NL_def)


section \<open>BlockLine: what gatherHdrBs and gatherHdrQs compute\<close>



















section \<open>The packed FASTA text and the chunks of the threads\<close>

lemma packFA_block_lines:
  "good s \<Longrightarrow>
   fst (packFA_block P l s cs) = fold (packFA_line P) (take l (complete_lines (buf s))) cs"
proof (induction l arbitrary: s cs)
  case 0
  show ?case by simp
next
  case (Suc l)
  obtain ln r where sp: "split_line (buf s) = (ln, r)" by (cases "split_line (buf s)")
  show ?case
  proof (cases r)
    case None
    have "\<not> good (snd (getline s []))" using getline_good_eof[OF Suc.prems] sp None by simp
    moreover have "complete_lines (buf s) = []" using sp None by (subst complete_lines.simps) simp
    ultimately show ?thesis by (cases "getline s []") auto
  next
    case (Some rest)
    have g: "getline s [] = (ln, s\<lparr>buf := rest\<rparr>)"
      using getline_good_line[OF Suc.prems] sp Some by simp
    have g': "good (s\<lparr>buf := rest\<rparr>)" using Suc.prems by (simp add: good_def)
    have c: "complete_lines (buf s) = ln # complete_lines rest"
      using sp Some by (subst complete_lines.simps) simp
    show ?thesis using Suc.IH[OF g', of "packFA_line P ln cs"] g g' c by simp
  qed
qed

lemma pack_lines_run:
  assumes "\<forall>x\<in>set pre. \<not> is_header x" "pre \<noteq> []" "ls = [] \<or> is_header (hd ls)"
  shows "pack_lines P (pre @ ls) = packSeq_3to1 P (join_252 pre) @ [254] @ pack_lines P ls"
proof -
  obtain p ps where pre: "pre = p # ps" using assms(2) by (cases pre) auto
  have tw: "takeWhile (\<lambda>x. \<not> is_header x) (ps @ ls) = ps"
    using assms(1,3) pre by (cases ls) (auto simp: takeWhile_append2)
  have dw: "dropWhile (\<lambda>x. \<not> is_header x) (ps @ ls) = ls"
    using assms(1,3) pre by (cases ls) (auto simp: dropWhile_append2)
  show ?thesis using assms(1) pre tw dw by simp
qed

lemma concat_252_empty: "concat (map (\<lambda>l. l @ [252 :: byte]) pre) = [] \<longleftrightarrow> pre = []"
  by (cases pre) auto

lemma flush_seq_run:
  assumes "\<forall>x\<in>set pre. \<not> is_header x"
  shows "flush_seq P (ctx, concat (map (\<lambda>l. l @ [252]) pre)) = ctx @ pack_lines P pre"
proof (cases "pre = []")
  case True
  then show ?thesis by (simp add: flush_seq_def)
next
  case False
  have "pack_lines P (pre @ []) = packSeq_3to1 P (join_252 pre) @ [254] @ pack_lines P []"
    by (rule pack_lines_run[OF assms False]) simp
  then show ?thesis using False by (simp add: flush_seq_def concat_252_empty join_252_def)
qed

lemma fold_packFA_line:
  "\<forall>x\<in>set pre. \<not> is_header x \<Longrightarrow>
   flush_seq P (fold (packFA_line P) ls (ctx, concat (map (\<lambda>l. l @ [252]) pre)))
     = ctx @ pack_lines P (pre @ ls)"
proof (induction ls arbitrary: ctx pre)
  case Nil
  then show ?case by (simp add: flush_seq_run)
next
  case (Cons l ls)
  show ?case
  proof (cases "is_header l")
    case True
    have step: "packFA_line P l (ctx, concat (map (\<lambda>l. l @ [252]) pre))
                = (ctx @ pack_lines P pre @ [253] @ packHdr P (tl l) @ [254], [])"
      using True flush_seq_run[OF Cons.prems, of P ctx]
      by (simp add: packFA_line_def is_header_def)
    have "flush_seq P (fold (packFA_line P) ls
             (ctx @ pack_lines P pre @ [253] @ packHdr P (tl l) @ [254], concat (map (\<lambda>l. l @ [252]) [])))
          = (ctx @ pack_lines P pre @ [253] @ packHdr P (tl l) @ [254]) @ pack_lines P ([] @ ls)"
      by (rule Cons.IH) simp
    moreover have "pack_lines P (pre @ l # ls)
          = pack_lines P pre @ [253] @ packHdr P (tl l) @ [254] @ pack_lines P ls"
    proof (cases "pre = []")
      case True
      then show ?thesis using \<open>is_header l\<close> by simp
    next
      case False
      have "pack_lines P (pre @ l # ls)
            = packSeq_3to1 P (join_252 pre) @ [254] @ pack_lines P (l # ls)"
        by (rule pack_lines_run[OF Cons.prems False]) (simp add: \<open>is_header l\<close>)
      moreover have "pack_lines P (pre @ []) = packSeq_3to1 P (join_252 pre) @ [254] @ pack_lines P []"
        by (rule pack_lines_run[OF Cons.prems False]) simp
      ultimately show ?thesis using \<open>is_header l\<close> by simp
    qed
    ultimately show ?thesis using step by simp
  next
    case False
    have step: "packFA_line P l (ctx, concat (map (\<lambda>l. l @ [252]) pre))
                = (ctx, concat (map (\<lambda>l. l @ [252]) (pre @ [l])))"
      using False by (simp add: packFA_line_def is_header_def)
    have "flush_seq P (fold (packFA_line P) ls (ctx, concat (map (\<lambda>l. l @ [252]) (pre @ [l]))))
          = ctx @ pack_lines P ((pre @ [l]) @ ls)"
      by (rule Cons.IH) (use Cons.prems False in auto)
    then show ?thesis using step by simp
  qed
qed

lemma packFA_block_packs:
  "good s \<Longrightarrow>
   flush_seq P (fst (packFA_block P l s ([], []))) = pack_lines P (take l (complete_lines (buf s)))"
  using fold_packFA_line[of "[]" P "take l (complete_lines (buf s))" "[]"]
  by (simp add: packFA_block_lines)

lemma compressFA_packed_last:
  "compressFA_packed L B st f = Some out \<Longrightarrow> last out = 252"
  by (auto simp: compressFA_packed_def split: option.splits prod.splits)

lemma packFA_block_unroll:
  "0 < l \<Longrightarrow> packFA_block P l s cs =
     (case getline s [] of (line, s') \<Rightarrow>
        if good s' then packFA_block P (l - 1) s' (packFA_line P line cs) else (cs, s'))"
  by (cases l) (simp_all split: prod.splits)

lemmas stream_eval = open_file_def good_def getline_def ignore_line_def peek_def NL_def

lemma gathered_h: "gathered 62 {62, 104} = [104]"
  by (simp add: gathered_def upt_rec_numeral)

lemma gatherHdrBs_example:
  "gatherHdrBs spec_BLOCK_SIZE (text_of [ascii ''>h'', ascii ''AC'', ascii ''GT''])
     = Some (32768, [104])"
  by (simp add: gatherHdrBs_def text_of_def ascii_def stream_eval spec_BLOCK_SIZE_def gathered_h
        in_table_def insert_commute)

lemmas pack_eval = packFA_def packFA_loop.simps packFA_block_unroll
  text_of_def ascii_def stream_eval
  packFA_line_def flush_seq_def frame_context_def write_chunk_def to_string.simps
  shuffle_context_def shufflePkd_def shuffle_def copy_library_def packers_for_def
  select_pack_def example_object_def skip_count_def THR_ID_HDR_def

lemma packFA_example: "packFA (packers_for copy_library [104] []) (lib_swaps copy_library)
     (example_object\<lparr>BlockLine := 32768\<rparr>) (text_of [ascii ''>h'', ascii ''AC'', ascii ''GT'']) 0
   = Some [[84, 72, 82, 61, 48, 10, 253, 57, 254, 253, 104, 254, 65, 67, 252, 71, 84, 254, 10]]"
  by (simp add: pack_eval)

lemma join_files_example:
  "join_files False
     [open_file [84, 72, 82, 61, 48, 10, 253, 57, 254, 253, 104, 254, 65, 67, 252, 71, 84, 254, 10]] []
   = Some [253, 57, 254, 253, 104, 254, 65, 67, 252, 71, 84, 254]"
  by (simp add: join_files.simps join_lines.simps stream_eval THR_ID_HDR_def ascii_def to_string.simps)

lemma compressFA_packed_example:
  "compressFA_packed copy_library spec_BLOCK_SIZE example_object
     (text_of [ascii ''>h'', ascii ''AC'', ascii ''GT''])
   = Some [127, 128, 104, 254, 253, 57, 254, 253, 104, 254, 65, 67, 252, 71, 84, 254, 252]"
proof -
  have n: "thread_ids (n_threads example_object) = [0]"
    by (simp add: thread_ids_def example_object_def)
  have s: "shuffle_byte example_object = 128" by (simp add: shuffle_byte_def example_object_def)
  show ?thesis
    unfolding compressFA_packed_def gatherHdrBs_example by (simp add: n s packFA_example join_files_example)
qed

lemma packFQ_block_unroll:
  "0 < k \<Longrightarrow> packFQ_block P k s ctx =
     (case getline s [] of (line1, s1) \<Rightarrow>
      if good s1 \<and> line1 = [] then None
      else
        case getline s1 line1 of (line2, s2) \<Rightarrow>
        case getline (ignore_line s2) line2 of (line3, s4) \<Rightarrow>
          packFQ_block P (k - 1) s4
            (ctx
             @ (if good s1 then packHdr P (tl line1) @ [254] else [])
             @ (if good s2 then packSeq_3to1 P line2 @ [254] else [])
             @ (if good s4 then packQS P line3 @ [254] else [])))"
  by (cases k) (simp_all split: prod.splits)

lemma THR_line_0: "THR_ID_HDR @ to_string 0 @ [NL] = [84, 72, 82, 61, 48, 10]"
  by (simp add: THR_ID_HDR_def ascii_def to_string.simps NL_def)

text \<open>
  Claim C4 as the specification words it does not hold. The file of thread 0 for the
  FASTA file \<open>>h\<close>, \<open>AC\<close>, \<open>GT\<close> is one chunk: it begins with the line \<open>THR=0\<close> and ends
  with the packed text and a newline; and the packed file made of it has no line
  \<open>THR=0\<close> at all. (The library here copies what it is given to pack.)
\<close>

theorem chunk_framing_counterexample:
  "packFA (packers_for copy_library [104] []) (lib_swaps copy_library)
     (example_object\<lparr>BlockLine := 32768\<rparr>) (text_of [ascii ''>h'', ascii ''AC'', ascii ''GT'']) 0
   = Some [[84, 72, 82, 61, 48, 10, 253, 57, 254, 253, 104, 254, 65, 67, 252, 71, 84, 254, 10]]
   \<and> THR_ID_HDR @ to_string 0 @ [NL] = [84, 72, 82, 61, 48, 10]
   \<and> compressFA_packed copy_library spec_BLOCK_SIZE example_object
       (text_of [ascii ''>h'', ascii ''AC'', ascii ''GT''])
     = Some [127, 128, 104, 254, 253, 57, 254, 253, 104, 254, 65, 67, 252, 71, 84, 254, 252]"
  using packFA_example THR_line_0 compressFA_packed_example by blast

text \<open>
  Claim C5 as the specification words it does not hold. The FASTA file \<open>>h\<close>, \<open>AC\<close>,
  \<open>GT\<close> has no blank line, and its packed file has the byte 252 twice: between the two
  lines of bases, which one byte 254 ends together, and as the last byte of the file.
  (The library here copies what it is given to pack.)
\<close>

theorem packed_FASTA_252_counterexample:
  "compressFA_packed copy_library spec_BLOCK_SIZE example_object
       (text_of [ascii ''>h'', ascii ''AC'', ascii ''GT''])
     = Some [127, 128, 104, 254, 253, 57, 254, 253, 104, 254, 65, 67, 252, 71, 84, 254, 252]
   \<and> [] \<notin> set (complete_lines (text_of [ascii ''>h'', ascii ''AC'', ascii ''GT'']))"
proof -
  have "[] \<notin> set (complete_lines (text_of [ascii ''>h'', ascii ''AC'', ascii ''GT'']))"
    unfolding example_fasta_lines by (simp add: ascii_def)
  then show ?thesis using compressFA_packed_example by blast
qed

text \<open>
  Claim C5, amended: the packed text of a block of FASTA lines is, for every header, 253,
  the packed header without \<open>>\<close> and 254; and for every longest run of lines that are no
  headers, the packing of these lines joined by the byte 252 (a blank line adds nothing
  but its 252), followed by one 254. The packed FASTA file ends with the byte 252.
\<close>

theorem packed_FASTA_bytes:
  assumes "good s" and "compressFA_packed L B st f = Some out"
  shows "flush_seq P (fst (packFA_block P l s ([], []))) = pack_lines P (take l (complete_lines (buf s)))
       \<and> last out = 252"
  using packFA_block_packs[OF assms(1)] compressFA_packed_last[OF assms(2)] by blast

text \<open>
  The amended claim C5 at the FASTA file \<open>>h\<close>, \<open>AC\<close>, \<open>GT\<close>.
\<close>

theorem packed_FASTA_bytes_witness:
  "good (open_file (text_of [ascii ''>h'', ascii ''AC'', ascii ''GT'']))
   \<and> compressFA_packed copy_library spec_BLOCK_SIZE example_object
       (text_of [ascii ''>h'', ascii ''AC'', ascii ''GT''])
     = Some [127, 128, 104, 254, 253, 57, 254, 253, 104, 254, 65, 67, 252, 71, 84, 254, 252]
   \<and> flush_seq (packers_for copy_library [104] [])
       (fst (packFA_block (packers_for copy_library [104] []) 32768
              (open_file (text_of [ascii ''>h'', ascii ''AC'', ascii ''GT''])) ([], [])))
     = [253, 104, 254, 65, 67, 252, 71, 84, 254]
   \<and> last [127, 128, 104, 254, 253, 57, 254, 253, 104, 254, 65, 67, 252, 71, 84, 254, 252 :: byte] = 252"
proof -
  let ?F = "text_of [ascii ''>h'', ascii ''AC'', ascii ''GT'']"
  let ?P = "packers_for copy_library [104] []"
  have g: "good (open_file ?F)" by (simp add: open_file_def good_def)
  have b: "buf (open_file ?F) = ?F" by (simp add: open_file_def)
  have p: "pack_lines ?P (take 32768 (complete_lines ?F)) = [253, 104, 254, 65, 67, 252, 71, 84, 254]"
    unfolding example_fasta_lines
    by (simp add: ascii_def is_header_def join_252_def packers_for_def copy_library_def select_pack_def)
  show ?thesis
    using packed_FASTA_bytes[OF g compressFA_packed_example, of ?P 32768] g compressFA_packed_example unfolding b p by simp
qed

section \<open>The byte after the quality scores' alphabet\<close>

lemma hasFQjustPlus_third_line:
  "hasFQjustPlus f \<longleftrightarrow> \<not> (2 < length (complete_lines f) \<and> 1 < length (complete_lines f ! 2))"
proof -
  define s0 where "s0 = open_file f"
  have g0: "good s0" and b0: "buf s0 = f" by (simp_all add: s0_def open_file_def good_def)
  define s1 where "s1 = ignore_line s0"
  define s2 where "s2 = ignore_line s1"
  have hq: "hasFQjustPlus f = (\<not> (good (snd (getline s2 [])) \<and> 1 < length (fst (getline s2 []))))"
    by (simp add: hasFQjustPlus_def s0_def s1_def s2_def split: prod.splits)
  show ?thesis
  proof (cases "complete_lines f")
    case Nil
    then have "\<not> good s1 \<and> eofbit s1" using ignore_line_lines_Nil[OF g0] b0 s1_def by simp
    then have "\<not> good s2 \<and> eofbit s2" using ignore_line_not_good s2_def by simp
    then have "\<not> good (snd (getline s2 []))" using getline_not_good by simp
    then show ?thesis using hq Nil by simp
  next
    case (Cons a as)
    then have s1: "good s1 \<and> complete_lines (buf s1) = as"
      using ignore_line_lines_Cons[OF g0] b0 s1_def by simp
    show ?thesis
    proof (cases as)
      case Nil
      then have "\<not> good s2 \<and> eofbit s2" using ignore_line_lines_Nil s1 s2_def by simp
      then have "\<not> good (snd (getline s2 []))" using getline_not_good by simp
      then show ?thesis using hq Cons Nil by simp
    next
      case (Cons b bs)
      then have s2: "good s2 \<and> complete_lines (buf s2) = bs"
        using ignore_line_lines_Cons s1 s2_def by simp
      show ?thesis
      proof (cases bs)
        case Nil
        then have "\<not> good (snd (getline s2 []))" using getline_lines_Nil s2 by simp
        then show ?thesis using hq \<open>complete_lines f = a # as\<close> \<open>as = b # bs\<close> Nil by simp
      next
        case (Cons c cs)
        then obtain s3 where "getline s2 [] = (c, s3)" "good s3"
          using getline_lines_Cons[of s2 c cs "[]"] s2 by auto
        then show ?thesis using hq \<open>complete_lines f = a # as\<close> \<open>as = b # bs\<close> Cons by simp
      qed
    qed
  qed
qed

lemma plus_byte_third_line:
  "plus_byte f =
     (if 2 < length (complete_lines f) \<and> 1 < length (complete_lines f ! 2) then NL else 253)"
  by (simp add: plus_byte_def hasFQjustPlus_third_line)

lemma read_until_stop:
  assumes "\<forall>x\<in>set xs. \<not> stop x" "stop b" "gpos s = length pre" "data s = pre @ xs @ b # post"
    "pgood s"
  shows "read_until stop s c acc = (acc @ xs, Some b, s\<lparr>gpos := length pre + length xs + 1\<rparr>)"
  using assms
proof (induction xs arbitrary: s c acc pre)
  case Nil
  then show ?case
    by (subst read_until.simps) (simp add: get_def nth_append)
next
  case (Cons x xs)
  have g: "get s c = (Some x, s\<lparr>gpos := Suc (length pre)\<rparr>)"
    using Cons.prems by (simp add: get_def nth_append)
  have "read_until stop (s\<lparr>gpos := Suc (length pre)\<rparr>) (Some x) (acc @ [x])
        = ((acc @ [x]) @ xs, Some b, (s\<lparr>gpos := Suc (length pre)\<rparr>)\<lparr>gpos := length (pre @ [x]) + length xs + 1\<rparr>)"
    by (rule Cons.IH) (use Cons.prems in \<open>auto simp: pgood_def\<close>)
  then show ?case
    using g Cons.prems by (subst read_until.simps) (simp add: pgood_def)
qed

lemma gathered_range: "x \<in> set (gathered k S) \<Longrightarrow> 32 \<le> x \<and> x \<le> 126"
proof -
  assume "x \<in> set (gathered k S)"
  then have "x \<in> set (map of_nat [32..<127])"
    unfolding gathered_def using filter_is_subset by fast
  then obtain n where n: "x = of_nat n" "n \<in> set [32..<127]"
    by (auto simp only: set_map image_iff)
  from n(2) have r: "32 \<le> n" "n < 127" by (simp_all only: set_upt atLeastLessThan_iff)
  then have "unat x = n" using n(1) by (simp add: unat_of_nat)
  then show ?thesis using r by (simp add: word_le_nat_alt)
qed

section \<open>Joining the threads' files: the chunks in rounds\<close>

lemma to_string_digits: "set (to_string n) \<subseteq> {48, 49, 50, 51, 52, 53, 54, 55, 56, 57}"
proof (induction n rule: to_string.induct)
  case (1 n)
  have d: "m < 10 \<Longrightarrow> (of_nat (48 + m) :: byte) \<in> {48, 49, 50, 51, 52, 53, 54, 55, 56, 57}" for m :: nat
  proof -
    assume "m < 10"
    then have "m \<in> {0, 1, 2, 3, 4, 5, 6, 7, 8, 9}" by auto
    then show ?thesis by auto
  qed
  show ?case
  proof (cases "n < 10")
    case True
    then show ?thesis using d[of n] by (subst to_string.simps) simp
  next
    case False
    have "(of_nat (48 + n mod 10) :: byte) \<in> {48, 49, 50, 51, 52, 53, 54, 55, 56, 57}"
      by (rule d) simp
    then show ?thesis using False "1.IH" by (subst to_string.simps) auto
  qed
qed

lemma tag_no_NL: "NL \<notin> set (THR_ID_HDR @ to_string t)"
proof -
  have "NL \<notin> set (to_string t)" using to_string_digits[of t] by (auto simp: NL_def)
  then show ?thesis by (simp add: THR_ID_HDR_def ascii_def NL_def)
qed

lemma join_lines_tag:
  assumes "good s" "buf s = tag @ NL # rest" "NL \<notin> set tag"
  shows "join_lines tag s prev out = (out, prev, s\<lparr>buf := rest\<rparr>)"
proof -
  have "split_line (buf s) = (tag, Some rest)"
    unfolding assms(2) by (rule split_line_append[OF assms(3)])
  then have g: "getline s [] = (tag, s\<lparr>buf := rest\<rparr>)" using assms(1) by (simp add: getline_def)
  show ?thesis using g by (subst join_lines.simps) simp
qed

lemma join_lines_end:
  assumes "good s" "buf s = []"
  shows "join_lines tag s prev out = (out, prev, s\<lparr>buf := [], eofbit := True, failbit := True\<rparr>)"
proof -
  have g: "getline s [] = ([], s\<lparr>buf := [], eofbit := True, failbit := True\<rparr>)"
    using assms by (simp add: getline_def)
  show ?thesis using g by (subst join_lines.simps) (simp add: good_def)
qed

lemma join_lines_dead:
  assumes "\<not> good s"
  shows "join_lines tag s prev out = (out, prev, s\<lparr>failbit := True\<rparr>)"
proof -
  have g: "getline s [] = ([], s\<lparr>failbit := True\<rparr>)" using assms by (simp add: getline_def)
  show ?thesis using g by (subst join_lines.simps) (simp add: good_def)
qed

lemma complete_lines_single: "NL \<notin> set c \<Longrightarrow> complete_lines (c @ [NL]) = [c]"
  using complete_lines_text_of[of "[c]"] by (simp add: text_of_def)

lemma complete_lines_line:
  "NL \<notin> set l \<Longrightarrow> complete_lines (l @ NL # r) = l # complete_lines r"
  by (rule complete_lines_Cons) (rule split_line_append)

lemma join_lines_text:
  assumes "good s" "buf s = c @ NL # rest" "tag \<notin> set (complete_lines (c @ [NL]))"
  shows "join_lines tag s prev out =
           join_lines tag (s\<lparr>buf := rest\<rparr>) True (out @ (if prev then [NL] else []) @ c)"
  using assms
proof (induction c arbitrary: s prev out rule: length_induct)
  case (1 c)
  show ?case
  proof (cases "NL \<in> set c")
    case False
    have "split_line (buf s) = (c, Some rest)"
      unfolding "1.prems"(2) by (rule split_line_append[OF False])
    then have g: "getline s [] = (c, s\<lparr>buf := rest\<rparr>)"
      using "1.prems"(1) by (simp add: getline_def)
    have g': "good (s\<lparr>buf := rest\<rparr>)" using "1.prems"(1) by (simp add: good_def)
    have ne: "c \<noteq> tag" using "1.prems"(3) complete_lines_single[OF False] by simp
    show ?thesis using g g' ne by (subst join_lines.simps) simp
  next
    case True
    then obtain l c' where c: "c = l @ NL # c'" "NL \<notin> set l"
      by (meson split_list_first)
    have b: "buf s = l @ NL # (c' @ NL # rest)" unfolding "1.prems"(2) c(1) by simp
    have "split_line (buf s) = (l, Some (c' @ NL # rest))"
      unfolding b by (rule split_line_append[OF c(2)])
    then have g: "getline s [] = (l, s\<lparr>buf := c' @ NL # rest\<rparr>)"
      using "1.prems"(1) by (simp add: getline_def)
    have g': "good (s\<lparr>buf := c' @ NL # rest\<rparr>)" using "1.prems"(1) by (simp add: good_def)
    have cl: "complete_lines (c @ [NL]) = l # complete_lines (c' @ [NL])"
      unfolding c(1) using complete_lines_line[OF c(2), of "c' @ [NL]"] by simp
    have ne: "l \<noteq> tag" and t': "tag \<notin> set (complete_lines (c' @ [NL]))"
      using "1.prems"(3) unfolding cl by auto
    have len: "length c' < length c" unfolding c(1) by simp
    have ih: "join_lines tag (s\<lparr>buf := c' @ NL # rest\<rparr>) True (out @ (if prev then [NL] else []) @ l)
              = join_lines tag ((s\<lparr>buf := c' @ NL # rest\<rparr>)\<lparr>buf := rest\<rparr>) True
                  ((out @ (if prev then [NL] else []) @ l) @ (if True then [NL] else []) @ c')"
      using "1.IH" len g' t' by simp
    show ?thesis
      using g g' ne ih unfolding c(1) by (subst join_lines.simps) simp
  qed
qed

lemma thread_file_Cons:
  "thread_file t (c # cs) = (THR_ID_HDR @ to_string t) @ NL # c @ NL # thread_file t cs"
  by (simp add: thread_file_def)

lemma thread_file_drop:
  "k < length cs \<Longrightarrow>
   thread_file t (drop k cs) = (THR_ID_HDR @ to_string t) @ NL # cs ! k @ NL # thread_file t (drop (Suc k) cs)"
  using thread_file_Cons[of t "cs ! k" "drop (Suc k) cs"] by (simp add: Cons_nth_drop_Suc)

lemma join_lines_first:
  "join_lines (THR_ID_HDR @ to_string t) (open_file (thread_file t cs)) False out
     = (out, False, at_chunk t cs 0)"
proof (cases cs)
  case Nil
  have "join_lines (THR_ID_HDR @ to_string t) (open_file []) False out
        = (out, False, (open_file [])\<lparr>buf := [], eofbit := True, failbit := True\<rparr>)"
    by (rule join_lines_end) (simp_all add: open_file_def good_def)
  then show ?thesis using Nil by (simp add: thread_file_def at_chunk_def open_file_def)
next
  case (Cons c cs')
  have "join_lines (THR_ID_HDR @ to_string t) (open_file (thread_file t cs)) False out
        = (out, False, (open_file (thread_file t cs))\<lparr>buf := c @ NL # thread_file t cs'\<rparr>)"
    by (rule join_lines_tag[OF _ _ tag_no_NL])
       (simp_all add: open_file_def good_def Cons thread_file_Cons)
  then show ?thesis using Cons by (simp add: at_chunk_def open_file_def)
qed

lemma join_lines_chunk:
  assumes "\<forall>c\<in>set cs. no_tag_line t c"
  shows "join_lines (THR_ID_HDR @ to_string t) (at_chunk t cs k) False out
           = (out @ (if k < length cs then cs ! k else []), k < length cs, at_chunk t cs (Suc k))"
proof (cases "k < length cs")
  case False
  have "\<not> good (at_chunk t cs k)" using False by (simp add: at_chunk_def good_def)
  from join_lines_dead[OF this] show ?thesis using False by (simp add: at_chunk_def)
next
  case True
  let ?tag = "THR_ID_HDR @ to_string t"
  let ?s = "at_chunk t cs k"
  have g: "good ?s" and b: "buf ?s = cs ! k @ NL # thread_file t (drop (Suc k) cs)"
    using True by (simp_all add: at_chunk_def good_def)
  have nt: "?tag \<notin> set (complete_lines (cs ! k @ [NL]))"
    using assms True by (simp add: no_tag_line_def)
  have 1: "join_lines ?tag ?s False out
           = join_lines ?tag (?s\<lparr>buf := thread_file t (drop (Suc k) cs)\<rparr>) True (out @ cs ! k)"
    using join_lines_text[OF g b nt, of False out] by simp
  let ?s1 = "?s\<lparr>buf := thread_file t (drop (Suc k) cs)\<rparr>"
  have g1: "good ?s1" using True by (simp add: at_chunk_def good_def)
  show ?thesis
  proof (cases "Suc k < length cs")
    case False
    then have e: "buf ?s1 = []" by (simp add: thread_file_def)
    have "join_lines ?tag ?s1 True (out @ cs ! k)
          = (out @ cs ! k, True, ?s1\<lparr>buf := [], eofbit := True, failbit := True\<rparr>)"
      by (rule join_lines_end[OF g1 e])
    then show ?thesis unfolding 1 using True False by (simp add: at_chunk_def)
  next
    case S: True
    have b1: "buf ?s1 = ?tag @ NL # (cs ! Suc k @ NL # thread_file t (drop (Suc (Suc k)) cs))"
      using thread_file_drop[OF S, of t] by simp
    have "join_lines ?tag ?s1 True (out @ cs ! k)
          = (out @ cs ! k, True, ?s1\<lparr>buf := cs ! Suc k @ NL # thread_file t (drop (Suc (Suc k)) cs)\<rparr>)"
      by (rule join_lines_tag[OF g1 b1 tag_no_NL])
    then show ?thesis unfolding 1 using True S by (simp add: at_chunk_def)
  qed
qed

lemma join_pass_round:
  assumes "distinct ts" "\<forall>t\<in>set ts. t < length ss"
    "\<forall>t\<in>set ts. \<forall>out. join_lines (THR_ID_HDR @ to_string t) (ss ! t) False out = (out @ e t, p t, s' t)"
  shows "join_pass nl ts ss out =
           (out @ concat (map (\<lambda>t. e t @ (if nl \<and> p t then [NL] else [])) ts),
            fold (\<lambda>t ss. ss[t := s' t]) ts ss)"
  using assms
proof (induction ts arbitrary: ss out)
  case Nil
  show ?case by simp
next
  case (Cons t ts)
  have j: "join_lines (THR_ID_HDR @ to_string t) (ss ! t) False out = (out @ e t, p t, s' t)"
    using Cons.prems(3) by simp
  have d: "distinct ts" and nt: "t \<notin> set ts" using Cons.prems(1) by simp_all
  have l: "\<forall>u\<in>set ts. u < length (ss[t := s' t])" using Cons.prems(2) by simp
  have k: "\<forall>u\<in>set ts. \<forall>out. join_lines (THR_ID_HDR @ to_string u) ((ss[t := s' t]) ! u) False out
              = (out @ e u, p u, s' u)"
  proof
    fix u assume u: "u \<in> set ts"
    then have "u \<noteq> t" using nt by auto
    then have "(ss[t := s' t]) ! u = ss ! u" by simp
    then show "\<forall>out. join_lines (THR_ID_HDR @ to_string u) ((ss[t := s' t]) ! u) False out
              = (out @ e u, p u, s' u)"
      using Cons.prems(3) u by simp
  qed
  have ih: "join_pass nl ts (ss[t := s' t]) (if nl \<and> p t then (out @ e t) @ [NL] else out @ e t) =
           ((if nl \<and> p t then (out @ e t) @ [NL] else out @ e t)
              @ concat (map (\<lambda>t. e t @ (if nl \<and> p t then [NL] else [])) ts),
            fold (\<lambda>t ss. ss[t := s' t]) ts (ss[t := s' t]))"
    by (rule Cons.IH[OF d l k])
  show ?case using j ih by simp
qed

lemma fold_update_length: "length (fold (\<lambda>t ss. ss[t := g t]) ts ss) = length ss"
  by (induction ts arbitrary: ss) simp_all

lemma fold_update_nth:
  "u < length ss \<Longrightarrow>
   fold (\<lambda>t ss. ss[t := g t]) ts ss ! u = (if u \<in> set ts then g u else ss ! u)"
proof (induction ts arbitrary: ss)
  case Nil
  show ?case by simp
next
  case (Cons t ts)
  have "u < length (ss[t := g t])" using Cons.prems by simp
  from Cons.IH[OF this] show ?case using Cons.prems by (auto simp: nth_list_update)
qed

lemma fold_update_all:
  "length ss = n \<Longrightarrow> fold (\<lambda>t ss. ss[t := g t]) [0..<n] ss = map g [0..<n]"
  by (rule nth_equalityI) (simp_all add: fold_update_length fold_update_nth)

lemma join_pass_all:
  assumes "\<forall>t<n. \<forall>out. join_lines (THR_ID_HDR @ to_string t) (f t) False out = (out @ e t, p t, s' t)"
  shows "join_pass nl [0..<n] (map f [0..<n]) out =
           (out @ concat (map (\<lambda>t. e t @ (if nl \<and> p t then [NL] else [])) [0..<n]),
            map s' [0..<n])"
proof -
  have a: "\<forall>t\<in>set [0..<n]. \<forall>out.
      join_lines (THR_ID_HDR @ to_string t) (map f [0..<n] ! t) False out = (out @ e t, p t, s' t)"
    using assms by simp
  have "join_pass nl [0..<n] (map f [0..<n]) out =
           (out @ concat (map (\<lambda>t. e t @ (if nl \<and> p t then [NL] else [])) [0..<n]),
            fold (\<lambda>t ss. ss[t := s' t]) [0..<n] (map f [0..<n]))"
    by (rule join_pass_round[OF _ _ a]) simp_all
  then show ?thesis by (simp add: fold_update_all)
qed

lemma join_files_at:
  assumes "css \<noteq> []" "\<forall>t<length css. \<forall>c\<in>set (css ! t). no_tag_line t c"
  shows "join_files nl (map (\<lambda>t. at_chunk t (css ! t) k) [0..<length css]) out =
           Some (out @ concat (map (\<lambda>r. concat (map (\<lambda>t. if r < length (css ! t)
                                                      then css ! t ! r @ (if nl then [NL] else [])
                                                      else []) [0..<length css]))
                             [k..<length (css ! 0)]))"
proof (induction "length (css ! 0) - k" arbitrary: k out)
  case 0
  then have k: "\<not> k < length (css ! 0)" by simp
  have n: "0 < length css" using assms(1) by simp
  have "eofbit (map (\<lambda>t. at_chunk t (css ! t) k) [0..<length css] ! 0)"
    using k n by (simp add: at_chunk_def)
  then show ?case using k n by (subst join_files.simps) simp
next
  case (Suc d)
  then have k: "k < length (css ! 0)" by simp
  have n: "0 < length css" using assms(1) by simp
  let ?ss = "map (\<lambda>t. at_chunk t (css ! t) k) [0..<length css]"
  have s0: "\<not> eofbit (?ss ! 0)" "\<not> failbit (?ss ! 0)" using k n by (simp_all add: at_chunk_def)
  have a: "\<forall>t<length css. \<forall>out.
      join_lines (THR_ID_HDR @ to_string t) (at_chunk t (css ! t) k) False out
        = (out @ (if k < length (css ! t) then css ! t ! k else []), k < length (css ! t),
           at_chunk t (css ! t) (Suc k))"
    using assms(2) join_lines_chunk by blast
  have jp: "join_pass nl [0..<length ss] ?ss out =
      (out @ concat (map (\<lambda>t. (if k < length (css ! t) then css ! t ! k else [])
                               @ (if nl \<and> k < length (css ! t) then [NL] else [])) [0..<length css]),
       map (\<lambda>t. at_chunk t (css ! t) (Suc k)) [0..<length css])"
    if "length ss = length css" for ss :: "istream list"
    unfolding that by (rule join_pass_all[OF a])
  have r: "(\<lambda>t. (if k < length (css ! t) then css ! t ! k else [])
                               @ (if nl \<and> k < length (css ! t) then [NL] else []))
           = (\<lambda>t. if k < length (css ! t) then css ! t ! k @ (if nl then [NL] else []) else [])"
    by (rule ext) simp
  have d: "d = length (css ! 0) - Suc k" using Suc.hyps(2) by simp
  have upt: "[k..<length (css ! 0)] = k # [Suc k..<length (css ! 0)]"
    using k by (simp add: upt_conv_Cons)
  have ne: "?ss \<noteq> []" using n by simp
  show ?case
    using s0 ne jp[of ?ss] Suc.hyps(1)[OF d] unfolding r upt
    by (subst join_files.simps) simp
qed

lemma rounds_nth:
  "css \<noteq> [] \<Longrightarrow>
   rounds nl css =
     concat (map (\<lambda>r. concat (map (\<lambda>t. if r < length (css ! t)
                                        then css ! t ! r @ (if nl then [NL] else [])
                                        else []) [0..<length css]))
               [0..<length (css ! 0)])"
proof -
  assume ne: "css \<noteq> []"
  have m: "map (\<lambda>t. F (css ! t)) [0..<length css] = map F css" for F :: "bytes list \<Rightarrow> bytes"
    by (rule nth_equalityI) simp_all
  have h: "hd css = css ! 0" using ne by (simp add: hd_conv_nth)
  show ?thesis unfolding rounds_def h
    using m[of "\<lambda>cs. if r < length cs then cs ! r @ (if nl then [NL] else []) else []" for r]
    by simp
qed

lemma join_files_rounds:
  assumes "css \<noteq> []" "\<forall>t<length css. \<forall>c\<in>set (css ! t). no_tag_line t c"
  shows "join_files nl (map (\<lambda>t. open_file (thread_file t (css ! t))) [0..<length css]) []
           = Some (rounds nl css)"
proof -
  have n: "0 < length css" using assms(1) by simp
  let ?ss = "map (\<lambda>t. open_file (thread_file t (css ! t))) [0..<length css]"
  have s0: "\<not> eofbit (?ss ! 0)" "\<not> failbit (?ss ! 0)" using n by (simp_all add: open_file_def)
  have a: "\<forall>t<length css. \<forall>out.
      join_lines (THR_ID_HDR @ to_string t) (open_file (thread_file t (css ! t))) False out
        = (out @ [], False, at_chunk t (css ! t) 0)"
    using join_lines_first by simp
  have jp: "join_pass nl [0..<length css] ?ss [] =
      ([] @ concat (map (\<lambda>t. [] @ (if nl \<and> False then [NL] else [])) [0..<length css]),
       map (\<lambda>t. at_chunk t (css ! t) 0) [0..<length css])"
    by (rule join_pass_all[OF a])
  have e: "concat (map (\<lambda>t. []) [0..<length css]) = ([] :: bytes)" by simp
  have ne: "?ss \<noteq> []" using n by simp
  have l: "length ?ss = length css" by simp
  show ?thesis
    using s0 ne jp join_files_at[OF assms, of nl 0 "[]"] unfolding rounds_nth[OF assms(1)]
    by (subst join_files.simps) (simp add: e)
qed

section \<open>The packed stream\<close>

lemma gathered_r1: "gathered 64 {49, 64, 114} = [49, 114]"
  by (simp add: gathered_def upt_rec_numeral)

lemma gathered_q: "gathered 127 {33} = [33]"
  by (simp add: gathered_def upt_rec_numeral)

lemma gatherHdrQs_example:
  "gatherHdrQs spec_BLOCK_SIZE (text_of [ascii ''@r1'', ascii ''ACGN'', ascii ''+'', ascii ''!!!!''])
     = Some (23828, [49, 114], [33])"
  by (simp add: gatherHdrQs_def text_of_def ascii_def stream_eval spec_BLOCK_SIZE_def
        gathered_r1 gathered_q in_table_def insert_commute)

lemma packFQ_block_empty:
  "buf s = [] \<Longrightarrow> \<exists>s'. packFQ_block P k s ctx = Some (ctx, s') \<and> buf s' = []"
proof (induction k arbitrary: s)
  case 0
  then show ?case by simp
next
  case (Suc k)
  obtain s1 where g1: "getline s [] = ([], s1)" "\<not> good s1" "buf s1 = []"
    using Suc.prems by (cases "good s") (auto simp: getline_def good_def)
  have g2: "getline s1 [] = ([], s1\<lparr>failbit := True\<rparr>)" using g1(2) by (simp add: getline_def)
  let ?s2 = "s1\<lparr>failbit := True\<rparr>"
  have n2: "\<not> good ?s2" by (simp add: good_def)
  have i: "ignore_line ?s2 = ?s2" using n2 by (simp add: ignore_line_def)
  have g3: "getline ?s2 [] = ([], ?s2)" using n2 by (simp add: getline_def)
  have b: "buf ?s2 = []" using g1(3) by simp
  obtain s' where "packFQ_block P k ?s2 ctx = Some (ctx, s') \<and> buf s' = []"
    using Suc.IH[OF b] by blast
  then show ?case using g1 g2 i g3 n2 by simp
qed

lemma packFQ_loop_empty: "buf s = [] \<Longrightarrow> packFQ_loop P swaps st t s = Some []"
  by (subst packFQ_loop.simps) (simp add: peek_def)

lemma packFQ_example:
  "packFQ (packers_for copy_library [49, 114] [33]) (lib_swaps copy_library)
     (example_object\<lparr>BlockLine := 23828\<rparr>)
     (text_of [ascii ''@r1'', ascii ''ACGN'', ascii ''+'', ascii ''!!!!'']) 0
   = Some [[84, 72, 82, 61, 48, 10, 253, 49, 51, 254, 114, 49, 254, 65, 67, 71, 78, 254,
            33, 33, 33, 33, 254, 10]]"
proof -
  let ?P = "packers_for copy_library [49, 114] [33]"
  let ?F = "text_of [ascii ''@r1'', ascii ''ACGN'', ascii ''+'', ascii ''!!!!'']"
  let ?p = "[114, 49, 254, 65, 67, 71, 78, 254, 33, 33, 33, 33, 254] :: bytes"
  have k: "unat (23828 :: u32) div 4 = 5957" by simp
  have "packFQ_block ?P 5957 (open_file ?F) []
        = packFQ_block ?P 5956 \<lparr>buf = [], eofbit = False, failbit = False\<rparr> ?p"
    by (subst packFQ_block_unroll)
       (simp_all add: text_of_def ascii_def stream_eval packers_for_def copy_library_def
          select_pack_def)
  moreover obtain s' where "packFQ_block ?P 5956 \<lparr>buf = [], eofbit = False, failbit = False\<rparr> ?p
        = Some (?p, s')" "buf s' = []"
    using packFQ_block_empty[of "\<lparr>buf = [], eofbit = False, failbit = False\<rparr>" ?P 5956 ?p] by auto
  ultimately have b: "packFQ_block ?P 5957 (open_file ?F) [] = Some (?p, s')" "buf s' = []"
    by simp_all
  have pk: "peek (open_file ?F) = (Some 64, open_file ?F)"
    by (simp add: text_of_def ascii_def stream_eval)
  have sk: "skip_count (example_object\<lparr>BlockLine := 23828\<rparr>) = 0"
    by (simp add: skip_count_def example_object_def)
  have sh: "shuffle_context (lib_swaps copy_library) (example_object\<lparr>BlockLine := 23828\<rparr>) ?p = ?p"
    by (simp add: shuffle_context_def shufflePkd_def shuffle_def copy_library_def example_object_def)
  have rest: "packFQ_loop ?P (lib_swaps copy_library) (example_object\<lparr>BlockLine := 23828\<rparr>) 0 s' = Some []"
    by (rule packFQ_loop_empty[OF b(2)])
  have "packFQ_loop ?P (lib_swaps copy_library) (example_object\<lparr>BlockLine := 23828\<rparr>) 0 (open_file ?F)
        = Some [write_chunk 0 (frame_context ?p)]"
    by (subst packFQ_loop.simps) (simp add: pk k b sk sh rest)
  then show ?thesis
    by (simp add: packFQ_def write_chunk_def frame_context_def to_string.simps THR_ID_HDR_def
          ascii_def NL_def)
qed

lemma packFA_loop_payloads:
  "packFA_loop P swaps st t s = Some chunks \<Longrightarrow>
   \<exists>ps. chunks = map (\<lambda>p. write_chunk t (frame_context p)) ps"
proof (induction P swaps st t s arbitrary: chunks rule: packFA_loop.induct)
  case (1 P swaps st t s)
  obtain pk s0 where p: "peek s = (pk, s0)" by (cases "peek s")
  show ?case
  proof (cases pk)
    case None
    then have "chunks = map (\<lambda>p. write_chunk t (frame_context p)) []"
      using "1.prems" p by (subst (asm) packFA_loop.simps) simp
    then show ?thesis by blast
  next
    case (Some c)
    obtain cs s1 where b: "packFA_block P (unat (BlockLine st)) s0 ([], []) = (cs, s1)"
      by (cases "packFA_block P (unat (BlockLine st)) s0 ([], [])")
    from "1.prems" p Some b obtain rest where
      nz: "BlockLine st \<noteq> 0" and
      r: "packFA_loop P swaps st t ((ignore_line ^^ skip_count st) s1) = Some rest" and
      ch: "chunks = write_chunk t (frame_context (shuffle_context swaps st (flush_seq P cs))) # rest"
      by (subst (asm) packFA_loop.simps) (auto split: if_splits)
    obtain ps where "rest = map (\<lambda>p. write_chunk t (frame_context p)) ps"
      using "1.IH"[OF p[symmetric] Some nz b[symmetric] r] by blast
    then have "chunks = map (\<lambda>p. write_chunk t (frame_context p))
                          (shuffle_context swaps st (flush_seq P cs) # ps)"
      unfolding ch by simp
    then show ?thesis by blast
  qed
qed

lemma packFQ_loop_payloads:
  "packFQ_loop P swaps st t s = Some chunks \<Longrightarrow>
   \<exists>ps. chunks = map (\<lambda>p. write_chunk t (frame_context p)) ps"
proof (induction P swaps st t s arbitrary: chunks rule: packFQ_loop.induct)
  case (1 P swaps st t s)
  obtain pk s0 where p: "peek s = (pk, s0)" by (cases "peek s")
  show ?case
  proof (cases pk)
    case None
    then have "chunks = map (\<lambda>p. write_chunk t (frame_context p)) []"
      using "1.prems" p by (subst (asm) packFQ_loop.simps) simp
    then show ?thesis by blast
  next
    case (Some c)
    from "1.prems" p Some obtain ctx s1 rest where
      nz: "\<not> (BlockLine st = 0 \<or> unat (BlockLine st) mod 4 \<noteq> 0)" and
      b: "packFQ_block P (unat (BlockLine st) div 4) s0 [] = Some (ctx, s1)" and
      r: "packFQ_loop P swaps st t ((ignore_line ^^ skip_count st) s1) = Some rest" and
      ch: "chunks = write_chunk t (frame_context (shuffle_context swaps st ctx)) # rest"
      by (subst (asm) packFQ_loop.simps) (auto split: if_splits option.splits)
    obtain ps where "rest = map (\<lambda>p. write_chunk t (frame_context p)) ps"
      using "1.IH"[OF p[symmetric] Some nz b refl r] by blast
    then have "chunks = map (\<lambda>p. write_chunk t (frame_context p))
                          (shuffle_context swaps st ctx # ps)"
      unfolding ch by simp
    then show ?thesis by blast
  qed
qed

lemma thread_file_chunks:
  "concat (map (\<lambda>p. write_chunk t (frame_context p)) ps)
     = thread_file (unat t) (map frame_context ps)"
  by (simp add: thread_file_def write_chunk_def comp_def)

lemma all_some_map:
  "\<forall>x\<in>set xs. F x = Some (G x) \<Longrightarrow> all_some (map F xs) = Some (map G xs)"
  by (induction xs) simp_all

lemma joined_packed:
  assumes "length pss = unat (n :: byte)" "pss \<noteq> []"
    "\<forall>t<length pss. pack (of_nat t) = Some (map (\<lambda>p. write_chunk (of_nat t) (frame_context p)) (pss ! t))"
    "\<forall>t<length pss. \<forall>p\<in>set (pss ! t). no_tag_line t (frame_context p)"
  shows "(case all_some (map pack (thread_ids n)) of
            None \<Rightarrow> None
          | Some pk \<Rightarrow>
              (case join_files False (map (\<lambda>chunks. open_file (concat chunks)) pk) [] of
                 None \<Rightarrow> None
               | Some joined \<Rightarrow> Some (pre @ joined @ [252])))
         = Some (pre @ rounds False (map (map frame_context) pss) @ [252])"
proof -
  let ?css = "map (map frame_context) pss"
  let ?G = "\<lambda>t. map (\<lambda>p. write_chunk (of_nat t :: byte) (frame_context p)) (pss ! t)"
  have a: "all_some (map (\<lambda>t. pack (of_nat t)) [0..<unat n]) = Some (map ?G [0..<unat n])"
    by (rule all_some_map) (use assms(1,3) in simp)
  have a': "all_some (map pack (thread_ids n)) = Some (map ?G [0..<unat n])"
    using a by (simp add: thread_ids_def comp_def)
  have u: "unat (of_nat t :: byte) = t" if "t < unat n" for t
  proof -
    have "unat n < 2 ^ LENGTH(8)" by (rule unsigned_less)
    then have "unat n < 256" by simp
    then show ?thesis using that by (simp add: unat_of_nat)
  qed
  have m: "map (\<lambda>chunks. open_file (concat chunks)) (map ?G [0..<unat n])
           = map (\<lambda>t. open_file (thread_file t (?css ! t))) [0..<length ?css]"
  proof -
    have "open_file (concat (?G t)) = open_file (thread_file t (?css ! t))" if "t < unat n" for t
      using that u[OF that] assms(1) by (simp add: thread_file_chunks)
    then show ?thesis using assms(1) by simp
  qed
  have ne: "?css \<noteq> []" using assms(2) by simp
  have nt: "\<forall>t<length ?css. \<forall>c\<in>set (?css ! t). no_tag_line t c"
    using assms(4) by auto
  have j: "join_files False (map (\<lambda>t. open_file (thread_file t (?css ! t))) [0..<length ?css]) []
           = Some (rounds False ?css)"
    by (rule join_files_rounds[OF ne nt])
  show ?thesis unfolding a' option.case m j by simp
qed

lemma compressFA_packed_rounds:
  assumes "gatherHdrBs B f = Some (bl, hdrs)"
    "length pss = unat (n_threads st)" "pss \<noteq> []"
    "\<forall>t<length pss. packFA (packers_for L hdrs []) (lib_swaps L) (st\<lparr>BlockLine := bl\<rparr>) f (of_nat t)
        = Some (map (\<lambda>p. write_chunk (of_nat t) (frame_context p)) (pss ! t))"
    "\<forall>t<length pss. \<forall>p\<in>set (pss ! t). no_tag_line t (frame_context p)"
  shows "compressFA_packed L B st f =
           Some ([127, shuffle_byte st] @ hdrs @ [254]
                 @ rounds False (map (map frame_context) pss) @ [252])"
  unfolding compressFA_packed_def assms(1) option.case prod.case
  using joined_packed[OF assms(2,3,4,5), of "[127, shuffle_byte st] @ hdrs @ [254]"]
  by (simp cong: option.case_cong)

lemma compressFQ_packed_rounds:
  assumes "gatherHdrQs B f = Some (bl, hdrs, qs)"
    "length pss = unat (n_threads st)" "pss \<noteq> []"
    "\<forall>t<length pss. packFQ (packers_for L hdrs qs) (lib_swaps L) (st\<lparr>BlockLine := bl\<rparr>) f (of_nat t)
        = Some (map (\<lambda>p. write_chunk (of_nat t) (frame_context p)) (pss ! t))"
    "\<forall>t<length pss. \<forall>p\<in>set (pss ! t). no_tag_line t (frame_context p)"
  shows "compressFQ_packed L B st f =
           Some (compressFQ_header st hdrs qs f
                 @ rounds False (map (map frame_context) pss) @ [252])"
  unfolding compressFQ_packed_def assms(1) option.case prod.case
  using joined_packed[OF assms(2,3,4,5), of "compressFQ_header st hdrs qs f"]
  by (simp cong: option.case_cong)

lemma plus_byte_example:
  "plus_byte (text_of [ascii ''@r1'', ascii ''ACGN'', ascii ''+'', ascii ''!!!!'']) = 253"
  unfolding plus_byte_third_line example_fastq_lines by (simp add: ascii_def)

lemma plus_byte_example_more:
  "plus_byte (text_of [ascii ''@r1'', ascii ''ACGN'', ascii ''+r1'', ascii ''!!!!'']) = NL"
  unfolding plus_byte_third_line example_fastq_plus_lines by (simp add: ascii_def)

lemma no_tag_line_examples:
  "no_tag_line 0 (frame_context [253, 104, 254, 65, 67, 252, 71, 84, 254])"
  "no_tag_line 0 (frame_context [114, 49, 254, 65, 67, 71, 78, 254, 33, 33, 33, 33, 254])"
proof -
  have a: "no_tag_line 0 c" if "NL \<notin> set c" "c \<noteq> THR_ID_HDR @ to_string 0" for c
    unfolding no_tag_line_def complete_lines_single[OF that(1)] using that(2) by simp
  show "no_tag_line 0 (frame_context [253, 104, 254, 65, 67, 252, 71, 84, 254])"
    by (rule a) (simp_all add: frame_context_def to_string.simps NL_def THR_ID_HDR_def ascii_def)
  show "no_tag_line 0 (frame_context [114, 49, 254, 65, 67, 71, 78, 254, 33, 33, 33, 33, 254])"
    by (rule a) (simp_all add: frame_context_def to_string.simps NL_def THR_ID_HDR_def ascii_def)
qed

text \<open>
  Claim C4, amended. Every chunk that \<open>packFA\<close> or \<open>packFQ\<close> writes to the file of thread
  \<open>t\<close> begins with the line \<open>THR=<t>\<close>; then come the byte 253, the number of bytes of the
  packed text in decimal, the byte 254, the packed text, and a newline. The join drops
  the lines \<open>THR=<t>\<close>: when \<open>pss ! t\<close> are the packed texts of the chunks of thread \<open>t\<close>,
  and no line of a chunk between two newlines is the line \<open>THR=<t>\<close> itself, the packed
  file is the file header, then the chunks, each beginning with 253, its number of bytes
  and 254, in rounds over the threads (round \<open>r\<close> takes chunk \<open>r\<close> of every thread that has
  one, as many rounds as thread 0 has chunks), and the byte 252.
\<close>

theorem chunk_framing:
  assumes "length pss = unat (n_threads st)" and "pss \<noteq> []"
    and "\<forall>t<length pss. \<forall>p\<in>set (pss ! t). no_tag_line t (frame_context p)"
  shows "(packFA P swaps st0 f0 t = Some chunks \<or> packFQ P swaps st0 f0 t = Some chunks \<longrightarrow>
            (\<exists>ps. chunks = map (\<lambda>p. THR_ID_HDR @ to_string (unat t) @ [NL]
                                    @ [253] @ to_string (length p) @ [254] @ p @ [NL]) ps))
       \<and> (gatherHdrBs B f = Some (bl, hdrs)
          \<and> (\<forall>t<length pss.
                packFA (packers_for L hdrs []) (lib_swaps L) (st\<lparr>BlockLine := bl\<rparr>) f (of_nat t)
                  = Some (map (\<lambda>p. write_chunk (of_nat t) (frame_context p)) (pss ! t))) \<longrightarrow>
            compressFA_packed L B st f =
              Some ([127, shuffle_byte st] @ hdrs @ [254]
                    @ rounds False (map (map frame_context) pss) @ [252]))
       \<and> (gatherHdrQs B f = Some (bl, hdrs, qs)
          \<and> (\<forall>t<length pss.
                packFQ (packers_for L hdrs qs) (lib_swaps L) (st\<lparr>BlockLine := bl\<rparr>) f (of_nat t)
                  = Some (map (\<lambda>p. write_chunk (of_nat t) (frame_context p)) (pss ! t))) \<longrightarrow>
            compressFQ_packed L B st f =
              Some (compressFQ_header st hdrs qs f
                    @ rounds False (map (map frame_context) pss) @ [252]))"
proof (intro conjI impI)
  assume "packFA P swaps st0 f0 t = Some chunks \<or> packFQ P swaps st0 f0 t = Some chunks"
  then obtain ps where "chunks = map (\<lambda>p. write_chunk t (frame_context p)) ps"
    using packFA_loop_payloads[of P swaps st0 t _ chunks] packFQ_loop_payloads[of P swaps st0 t _ chunks]
    unfolding packFA_def packFQ_def by blast
  then have "chunks = map (\<lambda>p. THR_ID_HDR @ to_string (unat t) @ [NL]
                                    @ [253] @ to_string (length p) @ [254] @ p @ [NL]) ps"
    by (simp add: write_chunk_def frame_context_def)
  then show "\<exists>ps. chunks = map (\<lambda>p. THR_ID_HDR @ to_string (unat t) @ [NL]
                                    @ [253] @ to_string (length p) @ [254] @ p @ [NL]) ps"
    by blast
next
  assume a: "gatherHdrBs B f = Some (bl, hdrs)
          \<and> (\<forall>t<length pss.
                packFA (packers_for L hdrs []) (lib_swaps L) (st\<lparr>BlockLine := bl\<rparr>) f (of_nat t)
                  = Some (map (\<lambda>p. write_chunk (of_nat t) (frame_context p)) (pss ! t)))"
  show "compressFA_packed L B st f =
              Some ([127, shuffle_byte st] @ hdrs @ [254]
                    @ rounds False (map (map frame_context) pss) @ [252])"
    by (rule compressFA_packed_rounds[OF conjunct1[OF a] assms(1,2) conjunct2[OF a] assms(3)])
next
  assume a: "gatherHdrQs B f = Some (bl, hdrs, qs)
          \<and> (\<forall>t<length pss.
                packFQ (packers_for L hdrs qs) (lib_swaps L) (st\<lparr>BlockLine := bl\<rparr>) f (of_nat t)
                  = Some (map (\<lambda>p. write_chunk (of_nat t) (frame_context p)) (pss ! t)))"
  show "compressFQ_packed L B st f =
              Some (compressFQ_header st hdrs qs f
                    @ rounds False (map (map frame_context) pss) @ [252])"
    by (rule compressFQ_packed_rounds[OF conjunct1[OF a] assms(1,2) conjunct2[OF a] assms(3)])
qed

text \<open>
  The amended claim C4 at the FASTA file \<open>>h\<close>, \<open>AC\<close>, \<open>GT\<close> and at the FASTQ file of the
  one record \<open>@r1\<close>, \<open>ACGN\<close>, \<open>+\<close>, \<open>!!!!\<close>, with one thread and \<open>BLOCK_SIZE\<close> = 64 KiB:
  the file of thread 0 and the packed file.
\<close>

theorem chunk_framing_witness:
  "packFA (packers_for copy_library [104] []) (lib_swaps copy_library)
      (example_object\<lparr>BlockLine := 32768\<rparr>) (text_of [ascii ''>h'', ascii ''AC'', ascii ''GT'']) 0
    = Some [[84, 72, 82, 61, 48, 10, 253, 57, 254, 253, 104, 254, 65, 67, 252, 71, 84, 254, 10]]
   \<and> (\<exists>ps. [[84, 72, 82, 61, 48, 10, 253, 57, 254, 253, 104, 254, 65, 67, 252, 71, 84, 254, 10]]
        = map (\<lambda>p. THR_ID_HDR @ to_string (unat (0 :: byte)) @ [NL]
                     @ [253] @ to_string (length p) @ [254] @ p @ [NL]) ps)
   \<and> no_tag_line 0 (frame_context [253, 104, 254, 65, 67, 252, 71, 84, 254])
   \<and> gatherHdrBs spec_BLOCK_SIZE (text_of [ascii ''>h'', ascii ''AC'', ascii ''GT''])
       = Some (32768, [104])
   \<and> compressFA_packed copy_library spec_BLOCK_SIZE example_object
       (text_of [ascii ''>h'', ascii ''AC'', ascii ''GT''])
       = Some [127, 128, 104, 254, 253, 57, 254, 253, 104, 254, 65, 67, 252, 71, 84, 254, 252]
   \<and> packFQ (packers_for copy_library [49, 114] [33]) (lib_swaps copy_library)
       (example_object\<lparr>BlockLine := 23828\<rparr>)
       (text_of [ascii ''@r1'', ascii ''ACGN'', ascii ''+'', ascii ''!!!!'']) 0
       = Some [[84, 72, 82, 61, 48, 10, 253, 49, 51, 254, 114, 49, 254, 65, 67, 71, 78, 254,
                33, 33, 33, 33, 254, 10]]
   \<and> no_tag_line 0 (frame_context [114, 49, 254, 65, 67, 71, 78, 254, 33, 33, 33, 33, 254])
   \<and> gatherHdrQs spec_BLOCK_SIZE (text_of [ascii ''@r1'', ascii ''ACGN'', ascii ''+'', ascii ''!!!!''])
       = Some (23828, [49, 114], [33])
   \<and> compressFQ_packed copy_library spec_BLOCK_SIZE example_object
       (text_of [ascii ''@r1'', ascii ''ACGN'', ascii ''+'', ascii ''!!!!''])
       = Some [128, 49, 114, 254, 33, 253, 253, 49, 51, 254, 114, 49, 254, 65, 67, 71, 78, 254,
               33, 33, 33, 33, 254, 252]"
proof -
  let ?fa = "text_of [ascii ''>h'', ascii ''AC'', ascii ''GT'']"
  let ?fq = "text_of [ascii ''@r1'', ascii ''ACGN'', ascii ''+'', ascii ''!!!!'']"
  let ?pa = "[253, 104, 254, 65, 67, 252, 71, 84, 254] :: bytes"
  let ?pq = "[114, 49, 254, 65, 67, 71, 78, 254, 33, 33, 33, 33, 254] :: bytes"
  let ?X = "[84, 72, 82, 61, 48, 10, 253, 57, 254, 253, 104, 254, 65, 67, 252, 71, 84, 254, 10] :: bytes"
  have n: "unat (n_threads example_object) = 1" by (simp add: example_object_def)
  have wa: "write_chunk 0 (frame_context ?pa) = ?X"
    by (simp add: write_chunk_def frame_context_def to_string.simps THR_ID_HDR_def ascii_def NL_def)
  have wq: "write_chunk 0 (frame_context ?pq)
            = [84, 72, 82, 61, 48, 10, 253, 49, 51, 254, 114, 49, 254, 65, 67, 71, 78, 254,
               33, 33, 33, 33, 254, 10]"
    by (simp add: write_chunk_def frame_context_def to_string.simps THR_ID_HDR_def ascii_def NL_def)
  have la: "length [[?pa]] = unat (n_threads example_object)" using n by simp
  have lq: "length [[?pq]] = unat (n_threads example_object)" using n by simp
  have ta: "\<forall>t<length [[?pa]]. \<forall>p\<in>set ([[?pa]] ! t). no_tag_line t (frame_context p)"
    using no_tag_line_examples(1) by simp
  have tq: "\<forall>t<length [[?pq]]. \<forall>p\<in>set ([[?pq]] ! t). no_tag_line t (frame_context p)"
    using no_tag_line_examples(2) by simp
  have pa: "\<forall>t<length [[?pa]].
      packFA (packers_for copy_library [104] []) (lib_swaps copy_library)
        (example_object\<lparr>BlockLine := 32768\<rparr>) ?fa (of_nat t)
      = Some (map (\<lambda>p. write_chunk (of_nat t) (frame_context p)) ([[?pa]] ! t))"
    using packFA_example wa by simp
  have pq: "\<forall>t<length [[?pq]].
      packFQ (packers_for copy_library [49, 114] [33]) (lib_swaps copy_library)
        (example_object\<lparr>BlockLine := 23828\<rparr>) ?fq (of_nat t)
      = Some (map (\<lambda>p. write_chunk (of_nat t) (frame_context p)) ([[?pq]] ! t))"
    using packFQ_example wq by simp
  have ra: "rounds False (map (map frame_context) [[?pa]]) = [253, 57, 254] @ ?pa"
    by (simp add: rounds_def frame_context_def to_string.simps)
  have rq: "rounds False (map (map frame_context) [[?pq]]) = [253, 49, 51, 254] @ ?pq"
    by (simp add: rounds_def frame_context_def to_string.simps)
  have sb: "shuffle_byte example_object = 128" by (simp add: shuffle_byte_def example_object_def)
  have 1: "\<exists>ps. [?X] = map (\<lambda>p. THR_ID_HDR @ to_string (unat (0 :: byte)) @ [NL]
                     @ [253] @ to_string (length p) @ [254] @ p @ [NL]) ps"
    using chunk_framing[OF la _ ta, where P = "packers_for copy_library [104] []"
        and swaps = "lib_swaps copy_library" and ?st0.0 = "example_object\<lparr>BlockLine := 32768\<rparr>"
        and ?f0.0 = ?fa and t = 0 and chunks = "[?X]"] packFA_example
    by simp
  have 2: "compressFA_packed copy_library spec_BLOCK_SIZE example_object ?fa
           = Some ([127, shuffle_byte example_object] @ [104] @ [254]
                   @ rounds False (map (map frame_context) [[?pa]]) @ [252])"
    using chunk_framing[OF la _ ta, where B = spec_BLOCK_SIZE and f = ?fa and bl = 32768
        and hdrs = "[104]" and L = copy_library] gatherHdrBs_example pa
    by simp
  have 3: "compressFQ_packed copy_library spec_BLOCK_SIZE example_object ?fq
           = Some (compressFQ_header example_object [49, 114] [33] ?fq
                   @ rounds False (map (map frame_context) [[?pq]]) @ [252])"
    using chunk_framing[OF lq _ tq, where B = spec_BLOCK_SIZE and f = ?fq and bl = 23828
        and hdrs = "[49, 114]" and qs = "[33]" and L = copy_library] gatherHdrQs_example pq
    by simp
  have hq: "compressFQ_header example_object [49, 114] [33] ?fq = [128, 49, 114, 254, 33, 253]"
    by (simp add: compressFQ_header_def sb plus_byte_example)
  show ?thesis
    using 1 2 3 packFA_example packFQ_example no_tag_line_examples gatherHdrBs_example
      gatherHdrQs_example
    unfolding ra rq sb hq by simp
qed

section \<open>Decompression: the threads and their chunks\<close>

lemma isdigit_to_string: "\<forall>x\<in>set (to_string n). isdigit x"
  using to_string_digits[of n] by (auto simp: isdigit_def)

lemma digits_value_append:
  "\<forall>x\<in>set xs. isdigit x \<Longrightarrow> isdigit d \<Longrightarrow>
   digits_value acc (xs @ [d]) = 10 * digits_value acc xs + (unat d - 48)"
  by (induction xs arbitrary: acc) simp_all

lemma digit_byte: "m < 10 \<Longrightarrow> isdigit (of_nat (48 + m)) \<and> unat (of_nat (48 + m) :: byte) - 48 = m"
proof -
  assume "m < 10"
  then have "m \<in> {0, 1, 2, 3, 4, 5, 6, 7, 8, 9}" by auto
  then show ?thesis by (auto simp: isdigit_def)
qed

lemma digits_value_to_string: "digits_value 0 (to_string n) = n"
proof (induction n rule: to_string.induct)
  case (1 n)
  show ?case
  proof (cases "n < 10")
    case True
    then show ?thesis using digit_byte[of n] by (subst to_string.simps) simp
  next
    case False
    have d: "isdigit (of_nat (48 + n mod 10)) \<and> unat (of_nat (48 + n mod 10) :: byte) - 48 = n mod 10"
      by (rule digit_byte) simp
    have "digits_value 0 (to_string (n div 10) @ [of_nat (48 + n mod 10)])
          = 10 * digits_value 0 (to_string (n div 10)) + (unat (of_nat (48 + n mod 10) :: byte) - 48)"
      by (rule digits_value_append[OF isdigit_to_string]) (use d in simp)
    then show ?thesis using False "1.IH" d by (subst to_string.simps) simp
  qed
qed

lemma to_string_nonempty: "to_string n \<noteq> []"
  by (subst to_string.simps) simp

lemma stoull_to_string:
  assumes "n < 2 ^ 64"
  shows "stoull (to_string n) = Inr (of_nat n)"
proof -
  obtain d ds where ds: "to_string n = d # ds" using to_string_nonempty[of n] by (cases "to_string n") auto
  have dg: "isdigit d" using isdigit_to_string[of n] ds by simp
  then have ns: "\<not> isspace d" "d \<noteq> 45" "d \<noteq> 43"
    by (auto simp: isdigit_def isspace_def word_le_nat_alt)
  have "strto (to_string n) = Some (False, digits_value 0 (to_string n))"
    unfolding ds using dg ns by (simp add: strto_def Let_def)
  then have "strto (to_string n) = Some (False, n)" by (simp add: digits_value_to_string)
  then show ?thesis using assms by (simp add: stoull_def)
qed

lemma to_string_no_254: "\<forall>x\<in>set (to_string n). \<not> x = 254"
  using to_string_digits[of n] by auto

lemma read_chunk_payload:
  assumes "data s = pre @ xs @ post" "gpos s = length pre" "pgood s"
  shows "read_chunk (length xs) s c acc =
           (Some (acc @ xs), last (c # map Some xs), s\<lparr>gpos := length pre + length xs\<rparr>)"
  using assms
proof (induction xs arbitrary: s c acc pre)
  case Nil
  then show ?case by simp
next
  case (Cons x xs)
  have g: "get s c = (Some x, s\<lparr>gpos := Suc (length pre)\<rparr>)"
    using Cons.prems by (simp add: get_def nth_append)
  have "read_chunk (length xs) (s\<lparr>gpos := Suc (length pre)\<rparr>) (Some x) (acc @ [x]) =
           (Some ((acc @ [x]) @ xs), last (Some x # map Some xs),
            (s\<lparr>gpos := Suc (length pre)\<rparr>)\<lparr>gpos := length (pre @ [x]) + length xs\<rparr>)"
    by (rule Cons.IH) (use Cons.prems in \<open>simp_all add: pgood_def\<close>)
  then show ?case using g by simp
qed

lemma frame_read:
  assumes "data s = pre @ frame_context p @ post" "\<not> failb s" "length p < 2 ^ 63"
  shows "get (seekg s (int (length pre))) c = (Some 253, s\<lparr>eofb := False, gpos := Suc (length pre)\<rparr>)"
    and "read_until (\<lambda>x. x = 254) (s\<lparr>eofb := False, gpos := Suc (length pre)\<rparr>) (Some 253) []
           = (to_string (length p), Some 254,
              s\<lparr>eofb := False, gpos := length pre + length (to_string (length p)) + 2\<rparr>)"
proof -
  let ?s0 = "seekg s (int (length pre))"
  have s0: "?s0 = s\<lparr>eofb := False, gpos := length pre\<rparr>" using assms(2) by (simp add: seekg_def)
  show "get ?s0 c = (Some 253, s\<lparr>eofb := False, gpos := Suc (length pre)\<rparr>)"
    unfolding s0 using assms(1,2) by (simp add: get_def pgood_def frame_context_def nth_append)
  let ?s1 = "s\<lparr>eofb := False, gpos := Suc (length pre)\<rparr>"
  have d1: "data ?s1 = (pre @ [253]) @ to_string (length p) @ 254 # (p @ post)"
    using assms(1) by (simp add: frame_context_def)
  have "read_until (\<lambda>x. x = 254) ?s1 (Some 253) []
        = ([] @ to_string (length p), Some 254,
           ?s1\<lparr>gpos := length (pre @ [253]) + length (to_string (length p)) + 1\<rparr>)"
    by (rule read_until_stop[OF to_string_no_254 _ _ d1]) (use assms(2) in \<open>simp_all add: pgood_def\<close>)
  then show "read_until (\<lambda>x. x = 254) ?s1 (Some 253) []
           = (to_string (length p), Some 254,
              s\<lparr>eofb := False, gpos := length pre + length (to_string (length p)) + 2\<rparr>)"
    by simp
qed

lemma sint_size: "n < 2 ^ 63 \<Longrightarrow> sint (of_nat n :: u64) = int n"
proof -
  assume a: "n < 2 ^ 63"
  have 1: "sint (word_of_int (int n) :: u64)
           = (int n + 2 ^ (LENGTH(64) - 1)) mod 2 ^ LENGTH(64) - 2 ^ (LENGTH(64) - 1)"
    by (rule int_word_sint)
  have 2: "(word_of_int (int n) :: u64) = of_nat n" by simp
  have 3: "(int n + 2 ^ 63) mod 2 ^ 64 = int n + 2 ^ 63" using a by simp
  show ?thesis using 1 3 unfolding 2 by simp
qed

lemma unat_size: "n < 2 ^ 63 \<Longrightarrow> unat (of_nat n :: u64) = n"
  by (simp add: unat_of_nat)

lemma frame_length: "length (frame_context p) = length (to_string (length p)) + 2 + length p"
  by (simp add: frame_context_def)

lemma next_chunk_hop:
  assumes "data s = pre @ frame_context q @ post" "\<not> failb s" "length q < 2 ^ 63"
  shows "next_chunk (Suc j) (int (length pre)) s c bp sz =
           next_chunk j (int (length (pre @ frame_context q)))
             (s\<lparr>eofb := False, gpos := length pre + length (to_string (length q)) + 2\<rparr>)
             (Some 254) (int (length pre + length (to_string (length q)) + 2)) (of_nat (length q))"
proof -
  define s2 where "s2 = s\<lparr>eofb := False, gpos := length pre + length (to_string (length q)) + 2\<rparr>"
  define sz' :: u64 where "sz' = of_nat (length q)"
  have st: "stoull (to_string (length q)) = Inr sz'"
    unfolding sz'_def by (rule stoull_to_string) (use assms(3) in simp)
  have tg: "tellg s2 = int (length pre + length (to_string (length q)) + 2)"
    using assms(2) by (simp add: tellg_def s2_def)
  have e: "tellg s2 + sint sz' = int (length (pre @ frame_context q))"
    unfolding tg sz'_def sint_size[OF assms(3)] by (simp add: frame_length)
  have "next_chunk (Suc j) (int (length pre)) s c bp sz =
          next_chunk j (tellg s2 + sint sz') s2 (Some 254) (tellg s2) sz'"
    using frame_read(1)[OF assms, of c] frame_read(2)[OF assms] st
    by (simp add: s2_def)
  then show ?thesis unfolding e unfolding tg unfolding s2_def sz'_def .
qed

lemma next_chunk_land:
  assumes "data s = pre @ concat (map frame_context qs) @ post" "\<not> failb s"
    "\<forall>q\<in>set qs. length q < 2 ^ 63" "i < length qs"
  shows "next_chunk (Suc i) (int (length pre)) s c bp sz =
           Some (s\<lparr>eofb := False,
                   gpos := length (pre @ concat (map frame_context (take i qs)))
                           + length (to_string (length (qs ! i))) + 2\<rparr>,
                 Some 254,
                 int (length (pre @ concat (map frame_context (take i qs)))
                      + length (to_string (length (qs ! i))) + 2),
                 of_nat (length (qs ! i)))"
  using assms
proof (induction i arbitrary: pre qs s c bp sz)
  case 0
  then obtain q qs' where qs: "qs = q # qs'" by (cases qs) auto
  have d: "data s = pre @ frame_context q @ (concat (map frame_context qs') @ post)"
    using "0.prems"(1) qs by simp
  have l: "length q < 2 ^ 63" using "0.prems"(3) qs by simp
  show ?case
    unfolding next_chunk_hop[OF d "0.prems"(2) l] using qs by simp
next
  case (Suc i)
  then obtain q qs' where qs: "qs = q # qs'" by (cases qs) auto
  have d: "data s = pre @ frame_context q @ (concat (map frame_context qs') @ post)"
    using Suc.prems(1) qs by simp
  have l: "length q < 2 ^ 63" using Suc.prems(3) qs by simp
  let ?s1 = "s\<lparr>eofb := False, gpos := length pre + length (to_string (length q)) + 2\<rparr>"
  have d1: "data ?s1 = (pre @ frame_context q) @ concat (map frame_context qs') @ post"
    using d by simp
  have f1: "\<not> failb ?s1" using Suc.prems(2) by simp
  have l1: "\<forall>q\<in>set qs'. length q < 2 ^ 63" using Suc.prems(3) qs by simp
  have i1: "i < length qs'" using Suc.prems(4) qs by simp
  show ?case
    unfolding next_chunk_hop[OF d Suc.prems(2) l]
    using Suc.IH[OF d1 f1 l1 i1] qs by simp
qed

lemma next_chunk_at_end:
  assumes "data s = pre @ [252]" "\<not> failb s" "0 < j"
  shows "next_chunk j (int (length pre)) s c bp sz =
           Some (s\<lparr>eofb := False, gpos := Suc (length pre)\<rparr>, Some 252, bp, sz)"
  using assms
proof (induction j arbitrary: s c)
  case 0
  then show ?case by simp
next
  case (Suc j)
  have sk: "seekg s (int (length pre)) = s\<lparr>eofb := False, gpos := length pre\<rparr>"
    using Suc.prems(2) by (simp add: seekg_def)
  have g: "get (seekg s (int (length pre))) c = (Some 252, s\<lparr>eofb := False, gpos := Suc (length pre)\<rparr>)"
    unfolding sk using Suc.prems(1,2) by (simp add: get_def pgood_def)
  show ?case
  proof (cases j)
    case 0
    then show ?thesis using g by simp
  next
    case (Suc k)
    let ?s1 = "s\<lparr>eofb := False, gpos := Suc (length pre)\<rparr>"
    have "next_chunk j (int (length pre)) ?s1 (Some 252) bp sz =
           Some (?s1\<lparr>eofb := False, gpos := Suc (length pre)\<rparr>, Some 252, bp, sz)"
      by (rule Suc.IH) (use Suc.prems Suc in simp_all)
    then show ?thesis using g by simp
  qed
qed

lemma next_chunk_past:
  assumes "data s = pre @ concat (map frame_context qs) @ [252]" "\<not> failb s"
    "\<forall>q\<in>set qs. length q < 2 ^ 63" "length qs < j"
  shows "\<exists>c' bp' sz'. next_chunk j (int (length pre)) s c bp sz =
           Some (s\<lparr>eofb := False, gpos := length (data s)\<rparr>, c', bp', sz')"
  using assms
proof (induction qs arbitrary: pre s c bp sz j)
  case Nil
  have d: "data s = pre @ [252]" using Nil.prems(1) by simp
  have j: "0 < j" using Nil.prems(4) by simp
  show ?case using next_chunk_at_end[OF d Nil.prems(2) j, of c bp sz] d by simp
next
  case (Cons q qs)
  obtain j' where j: "j = Suc j'" using Cons.prems(4) by (cases j) auto
  have d: "data s = pre @ frame_context q @ (concat (map frame_context qs) @ [252])"
    using Cons.prems(1) by simp
  have l: "length q < 2 ^ 63" using Cons.prems(3) by simp
  let ?s1 = "s\<lparr>eofb := False, gpos := length pre + length (to_string (length q)) + 2\<rparr>"
  have d1: "data ?s1 = (pre @ frame_context q) @ concat (map frame_context qs) @ [252]"
    using d by simp
  have f1: "\<not> failb ?s1" using Cons.prems(2) by simp
  have l1: "\<forall>q\<in>set qs. length q < 2 ^ 63" using Cons.prems(3) by simp
  have j1: "length qs < j'" using Cons.prems(4) j by simp
  show ?case
    unfolding j next_chunk_hop[OF d Cons.prems(2) l]
    using Cons.IH[OF d1 f1 l1 j1] by simp
qed

lemma concat_frames_split:
  "i < length qs \<Longrightarrow>
   concat (map frame_context qs) =
     concat (map frame_context (take i qs)) @ frame_context (qs ! i)
       @ concat (map frame_context (drop (Suc i) qs))"
proof -
  assume i: "i < length qs"
  have "concat (map frame_context qs)
        = concat (map frame_context (take i qs @ qs ! i # drop (Suc i) qs))"
    using id_take_nth_drop[OF i] by simp
  then show ?thesis by simp
qed

lemma unpack_loop_end:
  assumes "\<not> failb s" "\<not> eofb s" "length (data s) \<le> gpos s"
  shows "unpack_loop decode n tag s c bp sz out = Some out"
  using assms by (subst unpack_loop.simps) (simp add: ppeek_def pgood_def)

lemma unpack_loop_thread:
  assumes "data s = pre @ frame_context p @ concat (map frame_context qs) @ [252]"
    "pgood s" "gpos s < length (data s)" "length p < 2 ^ 63"
    "\<forall>q\<in>set qs. length q < 2 ^ 63" "0 < n"
  shows "unpack_loop decode n tag s c
           (int (length pre + length (to_string (length p)) + 2)) (of_nat (length p)) out
         = thread_output decode tag (every_nth n (p # qs)) out"
  using assms
proof (induction "length qs" arbitrary: pre p qs s c out rule: less_induct)
  case less
  define B where "B = length pre + length (to_string (length p)) + 2"
  have nf: "\<not> failb s" and ne: "\<not> eofb s" using less.prems(2) by (simp_all add: pgood_def)
  have pk: "ppeek s = (Some (data s ! gpos s), s)"
    using less.prems(2,3) by (simp add: ppeek_def)
  define s0 where "s0 = s\<lparr>eofb := False, gpos := B\<rparr>"
  have sk: "seekg s (int B) = s0" using nf by (simp add: seekg_def s0_def)
  have d0: "data s0 = (pre @ [253] @ to_string (length p) @ [254]) @ p
                        @ (concat (map frame_context qs) @ [252])"
    using less.prems(1) by (simp add: s0_def frame_context_def)
  have rc: "read_chunk (length p) s0 c [] =
              (Some ([] @ p), last (c # map Some p),
               s0\<lparr>gpos := length (pre @ [253] @ to_string (length p) @ [254]) + length p\<rparr>)"
    by (rule read_chunk_payload[OF d0]) (simp_all add: s0_def B_def pgood_def nf)
  define s1 where "s1 = s\<lparr>eofb := False, gpos := B + length p\<rparr>"
  define c1 where "c1 = last (c # map Some p)"
  have rc': "read_chunk (unat (of_nat (length p) :: u64)) (seekg s (int B)) c [] = (Some p, c1, s1)"
    unfolding sk unat_size[OF less.prems(4)] using rc by (simp add: s1_def s0_def B_def c1_def)
  have tg: "tellg s1 = int (length (pre @ frame_context p))"
    using nf by (simp add: tellg_def s1_def B_def frame_length)
  have d1: "data s1 = (pre @ frame_context p) @ concat (map frame_context qs) @ [252]"
    using less.prems(1) by (simp add: s1_def)
  have nf1: "\<not> failb s1" using nf by (simp add: s1_def)
  have unfold: "unpack_loop decode n tag s c (int B) (of_nat (length p)) out =
      (case decode p of
         None \<Rightarrow> None
       | Some lines \<Rightarrow>
           (case next_chunk n (tellg s1) s1 c1 (int B) (of_nat (length p)) of
              None \<Rightarrow> None
            | Some (s2, c2, begPos', chunkSize') \<Rightarrow>
                unpack_loop decode n tag s2 c2 begPos' chunkSize' (out @ tag @ [NL] @ lines)))"
    by (subst unpack_loop.simps) (simp add: pk rc')
  show ?case
  proof (cases "decode p")
    case None
    then show ?thesis unfolding B_def[symmetric] unfold by simp
  next
    case (Some lines)
    define out' where "out' = out @ tag @ [NL] @ lines"
    show ?thesis
    proof (cases "n \<le> length qs")
      case True
      obtain i where n: "n = Suc i" using less.prems(6) by (cases n) auto
      have i: "i < length qs" using True n by simp
      let ?pre' = "(pre @ frame_context p) @ concat (map frame_context (take i qs))"
      define P where "P = length ?pre' + length (to_string (length (qs ! i))) + 2"
      define s2 where "s2 = s1\<lparr>eofb := False, gpos := P\<rparr>"
      have nc: "next_chunk n (tellg s1) s1 c1 (int B) (of_nat (length p)) =
                  Some (s2, Some 254, int P, of_nat (length (qs ! i)))"
        unfolding tg n P_def s2_def
        by (rule next_chunk_land[OF d1 nf1 less.prems(5) i])
      have d2: "data s2 = ?pre' @ frame_context (qs ! i)
                  @ concat (map frame_context (drop (Suc i) qs)) @ [252]"
        unfolding s2_def using d1 concat_frames_split[OF i] by simp
      have g2: "pgood s2" using nf1 by (simp add: s2_def pgood_def)
      have p2: "gpos s2 < length (data s2)"
        unfolding d2 by (simp add: s2_def P_def frame_length)
      have l2: "length (qs ! i) < 2 ^ 63" using less.prems(5) i by simp
      have q2: "\<forall>q\<in>set (drop (Suc i) qs). length q < 2 ^ 63"
        using less.prems(5) by (auto dest: in_set_dropD)
      have lt: "length (drop (Suc i) qs) < length qs" using i by simp
      have ih: "unpack_loop decode n tag s2 (Some 254) (int P) (of_nat (length (qs ! i))) out'
                = thread_output decode tag (every_nth n (qs ! i # drop (Suc i) qs)) out'"
        unfolding P_def by (rule less.hyps[OF lt d2 g2 p2 l2 q2 less.prems(6)])
      have ev: "every_nth n (p # qs) = p # every_nth n (qs ! i # drop (Suc i) qs)"
        using n Cons_nth_drop_Suc[OF i] by simp
      show ?thesis
        unfolding B_def[symmetric] unfold ev using Some nc ih by (simp add: out'_def)
    next
      case False
      then have lt: "length qs < n" by simp
      obtain c' bp' sz' where nc: "next_chunk n (tellg s1) s1 c1 (int B) (of_nat (length p)) =
            Some (s1\<lparr>eofb := False, gpos := length (data s1)\<rparr>, c', bp', sz')"
        using next_chunk_past[OF d1 nf1 less.prems(5) lt, of c1 "int B" "of_nat (length p)"]
        unfolding tg by auto
      have en: "unpack_loop decode n tag (s1\<lparr>eofb := False, gpos := length (data s1)\<rparr>) c' bp' sz' out'
                = Some out'"
        by (rule unpack_loop_end) (use nf1 in simp_all)
      have ev: "every_nth n (p # qs) = [p]" using lt by simp
      show ?thesis
        unfolding B_def[symmetric] unfold ev using Some nc en by (simp add: out'_def)
    qed
  qed
qed

lemma map_upt_shift: "map f [0..<Suc k] = f 0 # map (\<lambda>i. f (Suc i)) [0..<k]"
  by (simp add: map_upt_Suc del: upt_Suc)

lemma dispatch_frames:
  assumes "data s = pre @ concat (map frame_context qs) @ [252]" "gpos s = length pre" "pgood s"
    "qs \<noteq> []" "\<forall>q\<in>set qs. length q < 2 ^ 63"
  shows "dispatch m t s c =
           Some (map (\<lambda>i. (t + i,
                            int (length (pre @ concat (map frame_context (take i qs)))
                                 + length (to_string (length (qs ! i))) + 2),
                            of_nat (length (qs ! i))))
                   [0..<min m (length qs)])"
  using assms
proof (induction m arbitrary: t s c pre qs)
  case 0
  show ?case by simp
next
  case (Suc m)
  obtain q qs' where qs: "qs = q # qs'" using Suc.prems(4) by (cases qs) auto
  have nf: "\<not> failb s" and ne: "\<not> eofb s" using Suc.prems(3) by (simp_all add: pgood_def)
  have d: "data s = pre @ frame_context q @ (concat (map frame_context qs') @ [252])"
    using Suc.prems(1) qs by simp
  have l: "length q < 2 ^ 63" using Suc.prems(5) qs by simp
  have sk: "seekg s (int (length pre)) = s"
    using nf ne Suc.prems(2) by (simp add: seekg_def)
  define s1 where "s1 = s\<lparr>eofb := False, gpos := Suc (length pre)\<rparr>"
  define s2 where "s2 = s\<lparr>eofb := False, gpos := length pre + length (to_string (length q)) + 2\<rparr>"
  define sz :: u64 where "sz = of_nat (length q)"
  have g: "get s c = (Some 253, s1)"
    using frame_read(1)[OF d nf l, of c] unfolding sk s1_def .
  have ru: "read_until (\<lambda>x. x = 254) s1 (Some 253) [] = (to_string (length q), Some 254, s2)"
    using frame_read(2)[OF d nf l] unfolding s1_def s2_def .
  have st: "stoull (to_string (length q)) = Inr sz"
    unfolding sz_def by (rule stoull_to_string) (use l in simp)
  have tg: "tellg s2 = int (length pre + length (to_string (length q)) + 2)"
    using nf by (simp add: tellg_def s2_def)
  define s3 where "s3 = s\<lparr>eofb := False, gpos := length (pre @ frame_context q)\<rparr>"
  have sc: "seekg_cur s2 sz = s3"
    unfolding seekg_cur_def sz_def sint_size[OF l]
    using nf by (simp add: seekg_def s2_def s3_def frame_length)
  have d3: "data s3 = (pre @ frame_context q) @ concat (map frame_context qs') @ [252]"
    using d by (simp add: s3_def)
  have g3: "pgood s3" using nf by (simp add: s3_def pgood_def)
  have p3: "gpos s3 = length (pre @ frame_context q)" by (simp add: s3_def)
  let ?F = "\<lambda>i. (t + i,
                  int (length (pre @ concat (map frame_context (take i qs)))
                       + length (to_string (length (qs ! i))) + 2),
                  (of_nat (length (qs ! i)) :: u64))"
  let ?G = "\<lambda>i. (Suc t + i,
                  int (length ((pre @ frame_context q) @ concat (map frame_context (take i qs')))
                       + length (to_string (length (qs' ! i))) + 2),
                  (of_nat (length (qs' ! i)) :: u64))"
  have e0: "?F 0 = (t, tellg s2, sz)"
    unfolding tg sz_def qs by simp
  have eS: "?F (Suc i) = ?G i" for i
    unfolding qs by simp
  have r: "[0..<min (Suc m) (length qs)] = [0..<Suc (min m (length qs'))]"
    using qs by simp
  have F: "map ?F [0..<min (Suc m) (length qs)] = (t, tellg s2, sz) # map ?G [0..<min m (length qs')]"
    unfolding r map_upt_shift e0 eS ..
  show ?case
  proof (cases "qs' = []")
    case True
    have pk: "ppeek s3 = (Some 252, s3)"
      using g3 d3 True by (simp add: ppeek_def s3_def nth_append)
    have "dispatch (Suc m) t s c = Some [(t, tellg s2, sz)]"
      using g ru st sc pk by simp
    then show ?thesis unfolding F using True by simp
  next
    case False
    then obtain r rs where rs: "qs' = r # rs" by (cases qs') auto
    have pk: "ppeek s3 = (Some 253, s3)"
      using g3 d3 rs by (simp add: ppeek_def s3_def nth_append frame_context_def)
    have l': "\<forall>q\<in>set qs'. length q < 2 ^ 63" using Suc.prems(5) qs by simp
    have ih: "dispatch m (Suc t) s3 (Some 254) = Some (map ?G [0..<min m (length qs')])"
      by (rule Suc.IH[OF d3 p3 g3 False l'])
    have "dispatch (Suc m) t s c = Some ((t, tellg s2, sz) # map ?G [0..<min m (length qs')])"
      using g ru st sc pk ih by simp
    then show ?thesis unfolding F .
  qed
qed

lemma map_of_upt:
  "map_of (map (\<lambda>i. (i, f i)) [0..<k]) t = (if t < k then Some (f t) else None)"
proof (induction k)
  case 0
  show ?case by simp
next
  case (Suc k)
  then show ?case by (auto simp: map_add_def less_Suc_eq)
qed

lemma run_unpack_threads:
  assumes "dec = hdr @ concat (map frame_context ps) @ [252]"
    "\<forall>p\<in>set ps. length p < 2 ^ 63" "0 < n"
  shows "run_unpack decode n dec
           (map (\<lambda>i. (i, int (length (hdr @ concat (map frame_context (take i ps)))
                                + length (to_string (length (ps ! i))) + 2),
                          of_nat (length (ps ! i))))
              [0..<min n (length ps)])
         = all_some (map (\<lambda>t. if t < length ps
                                then map_option Some
                                       (thread_output decode (THR_ID_HDR @ to_string t)
                                          (every_nth n (drop t ps)) [])
                                else Some None) [0..<n])"
proof -
  have th: "unpack_loop decode n (THR_ID_HDR @ to_string t) (popen dec) None
              (int (length (hdr @ concat (map frame_context (take t ps)))
                    + length (to_string (length (ps ! t))) + 2))
              (of_nat (length (ps ! t))) []
            = thread_output decode (THR_ID_HDR @ to_string t) (every_nth n (drop t ps)) []"
    if t: "t < length ps" for t
  proof -
    have d: "data (popen dec) = (hdr @ concat (map frame_context (take t ps))) @ frame_context (ps ! t)
               @ concat (map frame_context (drop (Suc t) ps)) @ [252]"
      unfolding assms(1) using concat_frames_split[OF t] by (simp add: popen_def)
    have g: "pgood (popen dec)" by (simp add: popen_def pgood_def)
    have p: "gpos (popen dec) < length (data (popen dec))"
      unfolding assms(1) by (simp add: popen_def)
    have l: "length (ps ! t) < 2 ^ 63" using assms(2) t by simp
    have q: "\<forall>q\<in>set (drop (Suc t) ps). length q < 2 ^ 63"
      using assms(2) by (auto dest: in_set_dropD)
    show ?thesis
      using unpack_loop_thread[OF d g p l q assms(3), of decode "THR_ID_HDR @ to_string t" None "[]"]
        Cons_nth_drop_Suc[OF t] by simp
  qed
  let ?E = "\<lambda>i. (int (length (hdr @ concat (map frame_context (take i ps)))
                        + length (to_string (length (ps ! i))) + 2),
                   (of_nat (length (ps ! i)) :: u64))"
  let ?started = "map (\<lambda>i. (i, ?E i)) [0..<min n (length ps)]"
  have pt: "(case map_of ?started t of
                    None \<Rightarrow> Some None
                  | Some (begPos, chunkSize) \<Rightarrow>
                      map_option Some
                        (unpack_loop decode n (THR_ID_HDR @ to_string t) (popen dec) None
                           begPos chunkSize []))
            = (if t < length ps
               then map_option Some
                      (thread_output decode (THR_ID_HDR @ to_string t) (every_nth n (drop t ps)) [])
               else Some None)"
    if t: "t < n" for t
  proof (cases "t < length ps")
    case True
    have mo: "map_of ?started t = Some (?E t)" unfolding map_of_upt using True t by simp
    show ?thesis unfolding mo using th[OF True] True by simp
  next
    case False
    have mo: "map_of ?started t = None" unfolding map_of_upt using False by simp
    show ?thesis unfolding mo using False by simp
  qed
  have "map (\<lambda>t. case map_of ?started t of
                    None \<Rightarrow> Some None
                  | Some (begPos, chunkSize) \<Rightarrow>
                      map_option Some
                        (unpack_loop decode n (THR_ID_HDR @ to_string t) (popen dec) None
                           begPos chunkSize []))
            [0..<n]
        = map (\<lambda>t. if t < length ps
                                then map_option Some
                                       (thread_output decode (THR_ID_HDR @ to_string t)
                                          (every_nth n (drop t ps)) [])
                                else Some None) [0..<n]"
    by (rule map_cong[OF refl]) (use pt in simp)
  then show ?thesis unfolding run_unpack_def by (rule arg_cong[where f = all_some])
qed

lemma decompress_body_chunks:
  assumes "data s = hdr @ concat (map frame_context ps) @ [252]" "gpos s = length hdr" "pgood s"
    "ps \<noteq> []" "\<forall>p\<in>set ps. length p < 2 ^ 63" "0 < n"
  shows "(case dispatch n 0 s c of
            None \<Rightarrow> None
          | Some started \<Rightarrow>
              (case run_unpack decode n (data s) started of
                 None \<Rightarrow> None
               | Some fs \<Rightarrow> join_files True (map open_opt fs) []))
         = (case all_some (map (\<lambda>t. if t < length ps
                                then map_option Some
                                       (thread_output decode (THR_ID_HDR @ to_string t)
                                          (every_nth n (drop t ps)) [])
                                else Some None) [0..<n]) of
              None \<Rightarrow> None
            | Some fs \<Rightarrow> join_files True (map open_opt fs) [])"
proof -
  have d: "dispatch n 0 s c =
           Some (map (\<lambda>i. (i, int (length (hdr @ concat (map frame_context (take i ps)))
                                + length (to_string (length (ps ! i))) + 2),
                          of_nat (length (ps ! i))))
              [0..<min n (length ps)])"
    using dispatch_frames[OF assms(1,2,3,4,5), of n 0 c] by simp
  show ?thesis
    unfolding d option.case run_unpack_threads[OF assms(1) assms(5,6)] ..
qed

lemma decompressFA_chunks:
  assumes "\<forall>x\<in>set hs. \<not> x = 254" "ps \<noteq> []" "\<forall>p\<in>set ps. length p < 2 ^ 63"
    "n_threads st \<noteq> 0"
  shows "decompressFA L st (x # b # hs @ [254] @ concat (map frame_context ps) @ [252]) =
           (case all_some
                   (map (\<lambda>t. if t < length ps
                             then map_option Some
                                    (thread_output
                                       (\<lambda>p. decodeFA (unpackers_for L hs [])
                                               (if b = 128
                                                then unshufflePkd (lib_swaps L) (keyFile st) p
                                                else p) 0 [])
                                       (THR_ID_HDR @ to_string t)
                                       (every_nth (unat (n_threads st)) (drop t ps)) [])
                             else Some None)
                      [0..<unat (n_threads st)]) of
              None \<Rightarrow> None
            | Some fs \<Rightarrow> join_files True (map open_opt fs) [])"
proof -
  define dec where "dec = x # b # hs @ [254] @ concat (map frame_context ps) @ [252]"
  define s0 where "s0 = \<lparr>data = dec, gpos = 2, eofb = False, failb = False\<rparr>"
  have d0: "data s0 = [x, b] @ hs @ 254 # (concat (map frame_context ps) @ [252])"
    by (simp add: s0_def dec_def)
  have ru: "read_until (\<lambda>x. x = 254) s0 (Some b) []
            = ([] @ hs, Some 254, s0\<lparr>gpos := length [x, b] + length hs + 1\<rparr>)"
    by (rule read_until_stop[OF assms(1) _ _ d0]) (simp_all add: s0_def pgood_def)
  define s2 where "s2 = s0\<lparr>gpos := length [x, b] + length hs + 1\<rparr>"
  have d2: "data s2 = (x # b # hs @ [254]) @ concat (map frame_context ps) @ [252]"
    by (simp add: s2_def s0_def dec_def)
  have p2: "gpos s2 = length (x # b # hs @ [254])" by (simp add: s2_def)
  have g2: "pgood s2" by (simp add: s2_def s0_def pgood_def)
  have n: "0 < unat (n_threads st)" using assms(4) by (simp add: unat_gt_0)
  have ds: "data s2 = dec" by (simp add: s2_def s0_def)
  have ct: "chunk_text L (st\<lparr>shuffled := (b = 128)\<rparr>) =
            (\<lambda>p. if b = 128 then unshufflePkd (lib_swaps L) (keyFile st) p else p)"
    by (rule ext) (simp add: chunk_text_def)
  have "decompressFA L st dec =
          decompressFA_body L (st\<lparr>shuffled := (b = 128)\<rparr>) dec hs (Some 254) s2"
    unfolding dec_def decompressFA_shuffle_byte
    using ru by (simp add: s0_def s2_def dec_def)
  also have "\<dots> = (case dispatch (unat (n_threads st)) 0 s2 (Some 254) of
            None \<Rightarrow> None
          | Some started \<Rightarrow>
              (case run_unpack
                      (\<lambda>p. decodeFA (unpackers_for L hs [])
                              (if b = 128 then unshufflePkd (lib_swaps L) (keyFile st) p else p) 0 [])
                      (unat (n_threads st)) (data s2) started of
                 None \<Rightarrow> None
               | Some fs \<Rightarrow> join_files True (map open_opt fs) []))"
    unfolding decompressFA_body_def ct ds by (simp cong: option.case_cong)
  finally show ?thesis
    unfolding decompress_body_chunks[OF d2 p2 g2 assms(2,3) n] dec_def .
qed

lemma decompressFQ_chunks:
  assumes "\<forall>x\<in>set hs. \<not> x = 254" "\<forall>x\<in>set qs. \<not> (x = NL \<or> x = 253)" "pb = NL \<or> pb = 253"
    "ps \<noteq> []" "\<forall>p\<in>set ps. length p < 2 ^ 63" "n_threads st \<noteq> 0"
  shows "decompressFQ L st (b # hs @ [254] @ qs @ [pb] @ concat (map frame_context ps) @ [252]) =
           (case all_some
                   (map (\<lambda>t. if t < length ps
                             then map_option Some
                                    (thread_output
                                       (\<lambda>p. decodeFQ (unpackers_for L hs qs)
                                               (if pb = NL then False else justPlus st)
                                               (if b = 128
                                                then unshufflePkd (lib_swaps L) (keyFile st) p
                                                else p) 0 [])
                                       (THR_ID_HDR @ to_string t)
                                       (every_nth (unat (n_threads st)) (drop t ps)) [])
                             else Some None)
                      [0..<unat (n_threads st)]) of
              None \<Rightarrow> None
            | Some fs \<Rightarrow> join_files True (map open_opt fs) [])"
proof -
  define dec where "dec = b # hs @ [254] @ qs @ [pb] @ concat (map frame_context ps) @ [252]"
  define s0 where "s0 = \<lparr>data = dec, gpos = 1, eofb = False, failb = False\<rparr>"
  have d0: "data s0 = [b] @ hs @ 254 # (qs @ [pb] @ concat (map frame_context ps) @ [252])"
    by (simp add: s0_def dec_def)
  have r1: "read_until (\<lambda>x. x = 254) s0 (Some b) []
            = ([] @ hs, Some 254, s0\<lparr>gpos := length [b] + length hs + 1\<rparr>)"
    by (rule read_until_stop[OF assms(1) _ _ d0]) (simp_all add: s0_def pgood_def)
  define s2 where "s2 = s0\<lparr>gpos := length [b] + length hs + 1\<rparr>"
  have d2: "data s2 = (b # hs @ [254]) @ qs @ pb # (concat (map frame_context ps) @ [252])"
    by (simp add: s2_def s0_def dec_def)
  have r2: "read_until (\<lambda>x. x = NL \<or> x = 253) s2 (Some 254) []
            = ([] @ qs, Some pb, s2\<lparr>gpos := length (b # hs @ [254]) + length qs + 1\<rparr>)"
    by (rule read_until_stop[OF assms(2,3) _ d2]) (simp_all add: s2_def s0_def pgood_def)
  define s3 where "s3 = s2\<lparr>gpos := length (b # hs @ [254]) + length qs + 1\<rparr>"
  have d3: "data s3 = (b # hs @ [254] @ qs @ [pb]) @ concat (map frame_context ps) @ [252]"
    by (simp add: s3_def s2_def s0_def dec_def)
  have p3: "gpos s3 = length (b # hs @ [254] @ qs @ [pb])" by (simp add: s3_def)
  have g3: "pgood s3" by (simp add: s3_def s2_def s0_def pgood_def)
  have n: "0 < unat (n_threads st)" using assms(6) by (simp add: unat_gt_0)
  have ds: "data s3 = dec" by (simp add: s3_def s2_def s0_def)
  define st' where "st' = st\<lparr>shuffled := (b = 128), justPlus := justPlus_after (justPlus st) (Some pb)\<rparr>"
  have ct: "chunk_text L st' =
            (\<lambda>p. if b = 128 then unshufflePkd (lib_swaps L) (keyFile st) p else p)"
    by (rule ext) (simp add: chunk_text_def st'_def)
  have jp: "justPlus st' = (if pb = NL then False else justPlus st)"
    by (simp add: st'_def justPlus_after_def)
  have nt: "n_threads st' = n_threads st" by (simp add: st'_def)
  have "decompressFQ L st dec = decompressFQ_body L st' dec hs qs (Some pb) s3"
    unfolding dec_def decompressFQ_shuffle_byte
    using r1 r2 by (simp add: s0_def s2_def s3_def dec_def st'_def)
  also have "\<dots> = (case dispatch (unat (n_threads st)) 0 s3 (Some pb) of
            None \<Rightarrow> None
          | Some started \<Rightarrow>
              (case run_unpack
                      (\<lambda>p. decodeFQ (unpackers_for L hs qs) (if pb = NL then False else justPlus st)
                              (if b = 128 then unshufflePkd (lib_swaps L) (keyFile st) p else p) 0 [])
                      (unat (n_threads st)) (data s3) started of
                 None \<Rightarrow> None
               | Some fs \<Rightarrow> join_files True (map open_opt fs) []))"
    unfolding decompressFQ_body_def ct ds jp nt ..
  finally show ?thesis
    unfolding decompress_body_chunks[OF d3 p3 g3 assms(4,5) n] dec_def .
qed

lemma decodeFQ_records:
  "decodeFQ U jp tx i out = Some res \<Longrightarrow>
   \<exists>recs. recs \<noteq> [] \<and> res = out @ concat (map (fq_record jp) recs)"
proof (induction U jp tx i out arbitrary: res rule: decodeFQ.induct)
  case (1 U jp tx i out)
  obtain h k1 where u1: "unpackHdr U (drop i tx) = (h, k1)" by (cases "unpackHdr U (drop i tx)")
  obtain sq k2 where u2: "unpackSeqFQ_3to1 U (drop (Suc (i + k1)) tx) = (sq, k2)"
    by (cases "unpackSeqFQ_3to1 U (drop (Suc (i + k1)) tx)")
  obtain q k3 where u3: "unpackQS U (drop (Suc (Suc (i + k1) + k2)) tx) = (q, k3)"
    by (cases "unpackQS U (drop (Suc (Suc (i + k1) + k2)) tx)")
  have li: "\<not> length tx \<le> i"
    using "1.prems" by (subst (asm) decodeFQ.simps) (simp split: if_splits)
  define out' where "out' = out @ fq_record jp (h, sq, q)"
  have o: "out' = out @ [64] @ h @ [NL] @ sq @ [NL] @ plus_line jp h @ [NL] @ q @ [NL]"
    by (simp add: out'_def fq_record_def plus_line_def)
  show ?case
  proof (cases "Suc (Suc (Suc (i + k1) + k2) + k3) = length tx")
    case True
    have "res = out'"
      using "1.prems" li u1 u2 u3 True unfolding o
      by (subst (asm) decodeFQ.simps) simp
    then have "res = out @ concat (map (fq_record jp) [(h, sq, q)])" by (simp add: out'_def)
    then show ?thesis by blast
  next
    case False
    have r: "decodeFQ U jp tx (Suc (Suc (Suc (i + k1) + k2) + k3)) out' = Some res"
      using "1.prems" li u1 u2 u3 False unfolding o
      by (subst (asm) decodeFQ.simps) simp
    obtain recs where "res = out' @ concat (map (fq_record jp) recs)"
      using "1.IH"[OF li u1[symmetric] u2[symmetric] u3[symmetric] False r[unfolded o]]
      unfolding o by blast
    then have "res = out @ concat (map (fq_record jp) ((h, sq, q) # recs))"
      by (simp add: out'_def)
    then show ?thesis by blast
  qed
qed

lemmas unpack_eval = unpackers_for_def copy_library_def swap_library_def select_unpack_def
  copy_until_254_def

lemma decodeFQ_example:
  "decodeFQ (unpackers_for copy_library [49, 114] [33]) jp
     [114, 49, 254, 65, 67, 71, 78, 254, 33, 33, 33, 33, 254] 0 []
   = Some ([64, 114, 49, 10, 65, 67, 71, 78, 10] @ plus_line jp [114, 49]
           @ [10, 33, 33, 33, 33, 10])"
  by (subst decodeFQ.simps) (simp add: unpack_eval NL_def)

lemma join_files_one_example:
  "join_files True [open_file (THR_ID_HDR @ to_string 0 @ [NL] @ c @ [NL])] [] = Some (c @ [NL])"
  if "no_tag_line 0 c" for c
proof -
  have a: "[c] \<noteq> []" "\<forall>t<length [[c]]. \<forall>x\<in>set ([[c]] ! t). no_tag_line t x"
    using that by simp_all
  have "join_files True (map (\<lambda>t. open_file (thread_file t ([[c]] ! t))) [0..<length [[c]]]) []
        = Some (rounds True [[c]])"
    by (rule join_files_rounds) (use that in simp_all)
  then show ?thesis by (simp add: thread_file_def rounds_def)
qed

lemma text_of_butlast: "butlast (text_of (l0 # ls)) @ [NL] = text_of (l0 # ls)"
proof -
  have ne: "text_of (l0 # ls) \<noteq> []" by (simp add: text_of_def)
  have "last (text_of (l0 # ls)) = NL"
    by (induction ls arbitrary: l0) (simp_all add: text_of_def)
  then show ?thesis using ne append_butlast_last_id by metis
qed

lemma no_tag_line_text:
  "\<forall>l\<in>set (l0 # ls). NL \<notin> set l \<and> l \<noteq> THR_ID_HDR @ to_string t \<Longrightarrow>
   no_tag_line t (butlast (text_of (l0 # ls)))"
proof -
  assume a: "\<forall>l\<in>set (l0 # ls). NL \<notin> set l \<and> l \<noteq> THR_ID_HDR @ to_string t"
  have "complete_lines (text_of (l0 # ls)) = l0 # ls"
    by (rule complete_lines_text_of) (use a in simp)
  then show ?thesis using a unfolding no_tag_line_def text_of_butlast by auto
qed

lemma decompressFQ_example:
  "decompressFQ copy_library example_object
     ([129, 49, 114, 254, 33, pb] @ frame_context [114, 49, 254, 65, 67, 71, 78, 254, 33, 33, 33, 33, 254]
        @ [252])
   = Some (text_of [ascii ''@r1'', ascii ''ACGN'', plus_line (pb \<noteq> NL) (ascii ''r1''), ascii ''!!!!''])"
  if pb: "pb = NL \<or> pb = 253" for pb
proof -
  let ?pq = "[114, 49, 254, 65, 67, 71, 78, 254, 33, 33, 33, 33, 254] :: bytes"
  let ?ls = "[ascii ''@r1'', ascii ''ACGN'', plus_line (pb \<noteq> NL) (ascii ''r1''), ascii ''!!!!'']"
  have jp: "(if pb = NL then False else justPlus example_object) = (pb \<noteq> NL)"
    by (simp add: example_object_def)
  have 1: "decompressFQ copy_library example_object
             (129 # [49, 114] @ [254] @ [33] @ [pb] @ concat (map frame_context [?pq]) @ [252])
           = (case all_some
                   (map (\<lambda>t. if t < length [?pq]
                             then map_option Some
                                    (thread_output
                                       (\<lambda>p. decodeFQ (unpackers_for copy_library [49, 114] [33])
                                               (if pb = NL then False else justPlus example_object)
                                               (if (129 :: byte) = 128
                                                then unshufflePkd (lib_swaps copy_library)
                                                       (keyFile example_object) p
                                                else p) 0 [])
                                       (THR_ID_HDR @ to_string t)
                                       (every_nth (unat (n_threads example_object)) (drop t [?pq])) [])
                             else Some None)
                      [0..<unat (n_threads example_object)]) of
              None \<Rightarrow> None
            | Some fs \<Rightarrow> join_files True (map open_opt fs) [])"
    by (rule decompressFQ_chunks) (use pb in \<open>simp_all add: NL_def example_object_def\<close>)
  have d: "decodeFQ (unpackers_for copy_library [49, 114] [33]) (pb \<noteq> NL) ?pq 0 []
           = Some (butlast (text_of ?ls) @ [NL])"
    unfolding decodeFQ_example text_of_butlast by (simp add: text_of_def ascii_def NL_def)
  have nt: "no_tag_line 0 (butlast (text_of ?ls))"
    by (rule no_tag_line_text)
       (auto simp: ascii_def NL_def plus_line_def THR_ID_HDR_def to_string.simps)
  have j: "join_files True [open_file (THR_ID_HDR @ to_string 0 @ [NL] @ butlast (text_of ?ls) @ [NL])] []
           = Some (butlast (text_of ?ls) @ [NL])"
    by (rule join_files_one_example[OF nt])
  have t: "butlast (text_of ?ls) @ [NL] = text_of ?ls" by (rule text_of_butlast)
  have n: "unat (n_threads example_object) = 1" by (simp add: example_object_def)
  show ?thesis
    using 1 unfolding jp n using d j unfolding t
    by (simp add: open_opt_def)
qed

lemma one_thread_example:
  assumes "decode p = Some (text_of (l0 # ls))"
    "\<forall>l\<in>set (l0 # ls). NL \<notin> set l \<and> l \<noteq> THR_ID_HDR @ to_string 0"
  shows "(case all_some
                 (map (\<lambda>t. if t < length [p]
                           then map_option Some
                                  (thread_output decode (THR_ID_HDR @ to_string t)
                                     (every_nth 1 (drop t [p])) [])
                           else Some None)
                    [0..<1]) of
            None \<Rightarrow> None
          | Some fs \<Rightarrow> join_files True (map open_opt fs) [])
         = Some (text_of (l0 # ls))"
proof -
  have j: "join_files True
             [open_file (THR_ID_HDR @ to_string 0 @ [NL] @ butlast (text_of (l0 # ls)) @ [NL])] []
           = Some (butlast (text_of (l0 # ls)) @ [NL])"
    by (rule join_files_one_example[OF no_tag_line_text[OF assms(2)]])
  show ?thesis
    using assms(1) j unfolding text_of_butlast by (simp add: open_opt_def)
qed

section \<open>The line of the plus sign\<close>

text \<open>
  Claim C3 as the specification words it does not hold. For the record \<open>@r1\<close>, \<open>ACGN\<close>,
  \<open>+\<close>, \<open>!!!!\<close> the byte is 253, and for the record \<open>@r1\<close>, \<open>ACGN\<close>, \<open>+r1\<close>, \<open>!!!!\<close>
  it is a newline; after a newline the line is \<open>+r1\<close> whatever \<open>justPlus\<close> was, and after
  253 it is \<open>+\<close> when \<open>justPlus\<close> was true. \<open>decompressFQ\<close>, on the packed file of that
  record, writes \<open>+r1\<close> when the byte is a newline and \<open>+\<close> when it is 253. (The library
  copies what it is given to unpack; \<open>justPlus\<close> is true in the object.)
\<close>

theorem plus_byte_spec_counterexample:
  "plus_byte (text_of [ascii ''@r1'', ascii ''ACGN'', ascii ''+'', ascii ''!!!!'']) = 253
   \<and> plus_byte (text_of [ascii ''@r1'', ascii ''ACGN'', ascii ''+r1'', ascii ''!!!!'']) = NL
   \<and> (\<forall>jp. plus_line (justPlus_after jp (Some NL)) (ascii ''r1'') = ascii ''+r1'')
   \<and> plus_line (justPlus_after True (Some 253)) (ascii ''r1'') = ascii ''+''
   \<and> decompressFQ copy_library example_object
       ([129, 49, 114, 254, 33, 10, 253, 49, 51, 254,
         114, 49, 254, 65, 67, 71, 78, 254, 33, 33, 33, 33, 254, 252])
       = Some (text_of [ascii ''@r1'', ascii ''ACGN'', ascii ''+r1'', ascii ''!!!!''])
   \<and> decompressFQ copy_library example_object
       ([129, 49, 114, 254, 33, 253, 253, 49, 51, 254,
         114, 49, 254, 65, 67, 71, 78, 254, 33, 33, 33, 33, 254, 252])
       = Some (text_of [ascii ''@r1'', ascii ''ACGN'', ascii ''+'', ascii ''!!!!''])"
proof -
  have 3: "\<forall>jp. plus_line (justPlus_after jp (Some NL)) (ascii ''r1'') = ascii ''+r1''"
    by (simp add: plus_line_def justPlus_after_def ascii_def)
  have 4: "plus_line (justPlus_after True (Some 253)) (ascii ''r1'') = ascii ''+''"
    by (simp add: plus_line_def justPlus_after_def ascii_def NL_def)
  have f: "frame_context [114, 49, 254, 65, 67, 71, 78, 254, 33, 33, 33, 33, 254]
           = [253, 49, 51, 254, 114, 49, 254, 65, 67, 71, 78, 254, 33, 33, 33, 33, 254]"
    by (simp add: frame_context_def to_string.simps)
  have 5: "decompressFQ copy_library example_object
       ([129, 49, 114, 254, 33, 10, 253, 49, 51, 254,
         114, 49, 254, 65, 67, 71, 78, 254, 33, 33, 33, 33, 254, 252])
       = Some (text_of [ascii ''@r1'', ascii ''ACGN'', ascii ''+r1'', ascii ''!!!!''])"
    using decompressFQ_example[of NL] unfolding f by (simp add: NL_def plus_line_def ascii_def)
  have 6: "decompressFQ copy_library example_object
       ([129, 49, 114, 254, 33, 253, 253, 49, 51, 254,
         114, 49, 254, 65, 67, 71, 78, 254, 33, 33, 33, 33, 254, 252])
       = Some (text_of [ascii ''@r1'', ascii ''ACGN'', ascii ''+'', ascii ''!!!!''])"
    using decompressFQ_example[of 253] unfolding f by (simp add: NL_def plus_line_def ascii_def)
  show ?thesis using plus_byte_example plus_byte_example_more 3 4 5 6 by blast
qed

text \<open>
  Claim C3, amended. The byte written after the quality scores' alphabet is a newline
  when the third line of the file is complete and longer than one character, and 253
  otherwise (only the first record is looked at). \<open>decompressFQ\<close>, on the file header that
  \<open>compressFQ\<close> wrote followed by chunks and the byte 252, decodes every chunk with
  \<open>justPlus\<close> false when that byte is a newline, and as it was in the object when the byte
  is 253. And every record that the decoder writes has \<open>+\<close> followed by its header as
  third line when \<open>justPlus\<close> is false, and \<open>+\<close> alone when it is true.
\<close>

theorem plus_byte_written_and_read:
  assumes "ps \<noteq> []" and "\<forall>p\<in>set ps. length p < 2 ^ 63" and "n_threads st \<noteq> 0"
    and "decodeFQ U jp tx i out = Some res"
  shows "plus_byte f =
           (if 2 < length (complete_lines f) \<and> 1 < length (complete_lines f ! 2) then NL else 253)
   \<and> decompressFQ L st
       (compressFQ_header st0 (gathered 64 hChars) (gathered 127 qChars) f
          @ concat (map frame_context ps) @ [252]) =
       (case all_some
               (map (\<lambda>t. if t < length ps
                         then map_option Some
                                (thread_output
                                   (\<lambda>p. decodeFQ
                                           (unpackers_for L (gathered 64 hChars) (gathered 127 qChars))
                                           (if plus_byte f = NL then False else justPlus st)
                                           (if disable_shuffle st0 then p
                                            else unshufflePkd (lib_swaps L) (keyFile st) p) 0 [])
                                   (THR_ID_HDR @ to_string t)
                                   (every_nth (unat (n_threads st)) (drop t ps)) [])
                         else Some None)
                  [0..<unat (n_threads st)]) of
          None \<Rightarrow> None
        | Some fs \<Rightarrow> join_files True (map open_opt fs) [])
   \<and> (\<exists>recs. recs \<noteq> [] \<and> res = out @ concat (map (fq_record jp) recs))"
proof -
  have h254: "\<forall>x\<in>set (gathered 64 hChars). \<not> x = 254"
    using gathered_range[of _ 64 hChars] by fastforce
  have qstop: "\<forall>x\<in>set (gathered 127 qChars). \<not> (x = NL \<or> x = 253)"
    using gathered_range[of _ 127 qChars] unfolding NL_def by fastforce
  have pstop: "plus_byte f = NL \<or> plus_byte f = 253" by (simp add: plus_byte_def)
  have sh: "(if shuffle_byte st0 = 128 then A else B) = (if disable_shuffle st0 then B else A)"
    for A B :: bytes
    by (simp add: shuffle_byte_def)
  have e: "compressFQ_header st0 (gathered 64 hChars) (gathered 127 qChars) f
             @ concat (map frame_context ps) @ [252]
           = shuffle_byte st0 # gathered 64 hChars @ [254] @ gathered 127 qChars @ [plus_byte f]
               @ concat (map frame_context ps) @ [252]"
    by (simp add: compressFQ_header_def)
  have 2: "decompressFQ L st
       (compressFQ_header st0 (gathered 64 hChars) (gathered 127 qChars) f
          @ concat (map frame_context ps) @ [252]) =
       (case all_some
               (map (\<lambda>t. if t < length ps
                         then map_option Some
                                (thread_output
                                   (\<lambda>p. decodeFQ
                                           (unpackers_for L (gathered 64 hChars) (gathered 127 qChars))
                                           (if plus_byte f = NL then False else justPlus st)
                                           (if disable_shuffle st0 then p
                                            else unshufflePkd (lib_swaps L) (keyFile st) p) 0 [])
                                   (THR_ID_HDR @ to_string t)
                                   (every_nth (unat (n_threads st)) (drop t ps)) [])
                         else Some None)
                  [0..<unat (n_threads st)]) of
          None \<Rightarrow> None
        | Some fs \<Rightarrow> join_files True (map open_opt fs) [])"
    unfolding e decompressFQ_chunks[OF h254 qstop pstop assms(1,2,3)] sh ..
  show ?thesis
    using plus_byte_third_line[of f] 2 decodeFQ_records[OF assms(4)] by blast
qed

text \<open>
  The amended claim C3 at the record \<open>@r1\<close>, \<open>ACGN\<close>, \<open>+r1\<close>, \<open>!!!!\<close>: the byte is a
  newline, and \<open>decompressFQ\<close> writes the record with \<open>+r1\<close>, with one thread and
  \<open>justPlus\<close> true in the object.
\<close>

theorem plus_byte_written_and_read_witness:
  "decodeFQ (unpackers_for copy_library [49, 114] [33]) False
     [114, 49, 254, 65, 67, 71, 78, 254, 33, 33, 33, 33, 254] 0 []
     = Some (text_of [ascii ''@r1'', ascii ''ACGN'', ascii ''+r1'', ascii ''!!!!''])
   \<and> plus_byte (text_of [ascii ''@r1'', ascii ''ACGN'', ascii ''+r1'', ascii ''!!!!'']) = NL
   \<and> compressFQ_header (example_object\<lparr>disable_shuffle := True\<rparr>)
       (gathered 64 {49, 64, 114}) (gathered 127 {33})
       (text_of [ascii ''@r1'', ascii ''ACGN'', ascii ''+r1'', ascii ''!!!!''])
       @ concat (map frame_context [[114, 49, 254, 65, 67, 71, 78, 254, 33, 33, 33, 33, 254]]) @ [252]
       = [129, 49, 114, 254, 33, 10, 253, 49, 51, 254,
          114, 49, 254, 65, 67, 71, 78, 254, 33, 33, 33, 33, 254, 252]
   \<and> decompressFQ copy_library example_object
       [129, 49, 114, 254, 33, 10, 253, 49, 51, 254,
        114, 49, 254, 65, 67, 71, 78, 254, 33, 33, 33, 33, 254, 252]
       = Some (text_of [ascii ''@r1'', ascii ''ACGN'', ascii ''+r1'', ascii ''!!!!''])
   \<and> (\<exists>recs. recs \<noteq> []
        \<and> text_of [ascii ''@r1'', ascii ''ACGN'', ascii ''+r1'', ascii ''!!!!'']
          = [] @ concat (map (fq_record False) recs))"
proof -
  let ?F = "text_of [ascii ''@r1'', ascii ''ACGN'', ascii ''+r1'', ascii ''!!!!'']"
  let ?pq = "[114, 49, 254, 65, 67, 71, 78, 254, 33, 33, 33, 33, 254] :: bytes"
  let ?U = "unpackers_for copy_library [49, 114] [33]"
  let ?st0 = "example_object\<lparr>disable_shuffle := True\<rparr>"
  have a1: "[?pq] \<noteq> []" by simp
  have a2: "\<forall>p\<in>set [?pq]. length p < 2 ^ 63" by simp
  have a3: "n_threads example_object \<noteq> 0" by (simp add: example_object_def)
  have a4: "decodeFQ ?U False ?pq 0 [] = Some ?F"
    unfolding decodeFQ_example by (simp add: text_of_def ascii_def NL_def plus_line_def)
  have hq: "compressFQ_header ?st0 (gathered 64 {49, 64, 114}) (gathered 127 {33}) ?F
              @ concat (map frame_context [?pq]) @ [252]
            = [129, 49, 114, 254, 33, 10, 253, 49, 51, 254,
               114, 49, 254, 65, 67, 71, 78, 254, 33, 33, 33, 33, 254, 252]"
    by (simp add: compressFQ_header_def shuffle_byte_def gathered_r1 gathered_q
          plus_byte_example_more NL_def frame_context_def to_string.simps)
  have n: "unat (n_threads example_object) = 1" by (simp add: example_object_def)
  have r: "(case all_some
                 (map (\<lambda>t. if t < length [?pq]
                           then map_option Some
                                  (thread_output (\<lambda>p. decodeFQ ?U False p 0 [])
                                     (THR_ID_HDR @ to_string t) (every_nth 1 (drop t [?pq])) [])
                           else Some None)
                    [0..<1]) of
            None \<Rightarrow> None
          | Some fs \<Rightarrow> join_files True (map open_opt fs) [])
         = Some ?F"
    by (rule one_thread_example)
       (use a4 in \<open>auto simp: ascii_def NL_def THR_ID_HDR_def to_string.simps\<close>)
  note T = plus_byte_written_and_read[OF a1 a2 a3 a4, where f = ?F and L = copy_library
      and ?st0.0 = ?st0 and hChars = "{49, 64, 114}" and qChars = "{33}"]
  have j: "(if plus_byte ?F = NL then False else justPlus example_object) = False"
    by (simp add: plus_byte_example_more)
  have 4: "decompressFQ copy_library example_object
       [129, 49, 114, 254, 33, 10, 253, 49, 51, 254,
        114, 49, 254, 65, 67, 71, 78, 254, 33, 33, 33, 33, 254, 252] = Some ?F"
    using conjunct1[OF conjunct2[OF T], unfolded hq] unfolding j n gathered_r1 gathered_q
    using r by simp
  show ?thesis
    using a4 plus_byte_example_more hq 4 conjunct2[OF conjunct2[OF T]] by simp
qed

section \<open>The shuffle byte decides\<close>

lemma unshuffle_example:
  "unshufflePkd (lib_swaps swap_library) pass [254, 104, 254, 65, 67, 71, 84, 253]
     = [253, 104, 254, 65, 67, 71, 84, 254]"
  "unshufflePkd (lib_swaps swap_library) pass
     [254, 49, 254, 65, 67, 71, 78, 254, 33, 33, 33, 33, 114]
     = [114, 49, 254, 65, 67, 71, 78, 254, 33, 33, 33, 33, 254]"
  by (simp_all add: unshufflePkd_def shuffle_def iter_swap_def swap_library_def copy_library_def
        upt_rec_numeral)

lemma decodeFA_example:
  "decodeFA (unpackers_for swap_library [104] []) [253, 104, 254, 65, 67, 71, 84, 254] 0 []
     = Some (text_of [ascii ''>h'', ascii ''ACGT''])"
  by (simp add: decodeFA.simps unpack_eval text_of_def ascii_def NL_def)

lemma decodeFA_example_shuffled:
  "decodeFA (unpackers_for swap_library [104] []) [254, 104, 254, 65, 67, 71, 84, 253] 0 [] = None"
  by (simp add: decodeFA.simps unpack_eval NL_def)

text \<open>
  Claim C10. On a command line with \<open>-d\<close> or \<open>--decrypt\<close> the option \<open>-s\<close> or
  \<open>--disable_shuffle\<close>, wherever it stands, changes nothing of what \<open>main\<close> does, and the
  decompressors do not read the member \<open>disable_shuffle\<close>. On a packed file (the file
  header with the shuffle byte \<open>b\<close>, the chunks with the packed texts \<open>ps\<close>, the byte 252)
  thread \<open>t\<close> decodes the chunks \<open>t\<close>, \<open>t + n\<close>, \<open>t + 2 * n\<close>, ... of the \<open>n\<close> threads'
  rounds, and it decodes the unshuffled text of every chunk when \<open>b\<close> is 128 and the text
  as it is otherwise; the threads' files are joined on the standard output.
\<close>

theorem unshuffle_decided_by_header_byte:
  assumes "Short 100 \<in> set (xs @ ys) \<or> Long 100 \<in> set (xs @ ys)"
    and "\<forall>x\<in>set hs. \<not> x = 254" and "\<forall>x\<in>set qs. \<not> (x = NL \<or> x = 253)"
    and "pb = NL \<or> pb = 253"
    and "ps \<noteq> []" and "\<forall>p\<in>set ps. length p < 2 ^ 63" and "n_threads st \<noteq> 0"
  shows "main D L f (xs @ Short 115 # ys) = main D L f (xs @ ys)
   \<and> main D L f (xs @ Long 115 # ys) = main D L f (xs @ ys)
   \<and> decompressFA L (st\<lparr>disable_shuffle := d\<rparr>) dec = decompressFA L st dec
   \<and> decompressFQ L (st\<lparr>disable_shuffle := d\<rparr>) dec = decompressFQ L st dec
   \<and> decompressFA L st (x # b # hs @ [254] @ concat (map frame_context ps) @ [252]) =
       (case all_some
               (map (\<lambda>t. if t < length ps
                         then map_option Some
                                (thread_output
                                   (\<lambda>p. decodeFA (unpackers_for L hs [])
                                           (if b = 128
                                            then unshufflePkd (lib_swaps L) (keyFile st) p
                                            else p) 0 [])
                                   (THR_ID_HDR @ to_string t)
                                   (every_nth (unat (n_threads st)) (drop t ps)) [])
                         else Some None)
                  [0..<unat (n_threads st)]) of
          None \<Rightarrow> None
        | Some fs \<Rightarrow> join_files True (map open_opt fs) [])
   \<and> decompressFQ L st (b # hs @ [254] @ qs @ [pb] @ concat (map frame_context ps) @ [252]) =
       (case all_some
               (map (\<lambda>t. if t < length ps
                         then map_option Some
                                (thread_output
                                   (\<lambda>p. decodeFQ (unpackers_for L hs qs)
                                           (if pb = NL then False else justPlus st)
                                           (if b = 128
                                            then unshufflePkd (lib_swaps L) (keyFile st) p
                                            else p) 0 [])
                                   (THR_ID_HDR @ to_string t)
                                   (every_nth (unat (n_threads st)) (drop t ps)) [])
                         else Some None)
                  [0..<unat (n_threads st)]) of
          None \<Rightarrow> None
        | Some fs \<Rightarrow> join_files True (map open_opt fs) [])"
  using main_ignores_s[OF assms(1), of "Short 115"] main_ignores_s[OF assms(1), of "Long 115"]
    decompressFA_disable_shuffle[where L = L and st = st and d = d and dec = dec]
    decompressFQ_disable_shuffle[where L = L and st = st and d = d and dec = dec]
    decompressFA_chunks[OF assms(2,5,6,7), where L = L and x = x and b = b]
    decompressFQ_chunks[OF assms(2,3,4,5,6,7), where L = L and b = b]
  by simp

text \<open>
  Claim C10 at the packed file of the FASTA file \<open>>h\<close>, \<open>ACGT\<close>, with a shuffle that
  exchanges the first and the last byte of a chunk: \<open>-s -d -k key\<close> writes the FASTA file,
  as the shuffle byte is 128; with the shuffle byte 129 the chunk is decoded as it is, and
  the decoder runs past its end. The same for the FASTQ record \<open>@r1\<close>, \<open>ACGN\<close>, \<open>+r1\<close>,
  \<open>!!!!\<close>.
\<close>

theorem unshuffle_decided_by_header_byte_witness:
  "main (example_driver\<lparr>files := (\<lambda>name. if name = ascii ''key'' then Some (ascii ''passw0rd'')
                                          else Some (watermark (1, 0)
                                                 @ [127, 128, 104, 254, 253, 56, 254,
                                                    254, 104, 254, 65, 67, 71, 84, 253, 252]))\<rparr>)
      swap_library (ascii ''in'') ([] @ Short 115 # [Short 100, Key (ascii ''key'')])
     = Status 0 [] (text_of [ascii ''>h'', ascii ''ACGT''])
   \<and> decompressFA swap_library example_object
       [127, 128, 104, 254, 253, 56, 254, 254, 104, 254, 65, 67, 71, 84, 253, 252]
       = Some (text_of [ascii ''>h'', ascii ''ACGT''])
   \<and> decompressFA swap_library example_object
       [127, 129, 104, 254, 253, 56, 254, 254, 104, 254, 65, 67, 71, 84, 253, 252] = None
   \<and> decompressFQ swap_library example_object
       [128, 49, 114, 254, 33, 10, 253, 49, 51, 254,
        254, 49, 254, 65, 67, 71, 78, 254, 33, 33, 33, 33, 114, 252]
       = Some (text_of [ascii ''@r1'', ascii ''ACGN'', ascii ''+r1'', ascii ''!!!!''])"
proof -
  let ?packed = "[127, 128, 104, 254, 253, 56, 254, 254, 104, 254, 65, 67, 71, 84, 253, 252] :: bytes"
  let ?D = "example_driver\<lparr>files := (\<lambda>name. if name = ascii ''key'' then Some (ascii ''passw0rd'')
                                          else Some (watermark (1, 0) @ ?packed))\<rparr>"
  let ?sa = "[254, 104, 254, 65, 67, 71, 84, 253] :: bytes"
  let ?sq = "[254, 49, 254, 65, 67, 71, 78, 254, 33, 33, 33, 33, 114] :: bytes"
  let ?opts = "[Short 100, Key (ascii ''key'')]"
  have h1: "Short 100 \<in> set ([] @ ?opts) \<or> Long 100 \<in> set ([] @ ?opts)" by simp
  have h3: "\<forall>x\<in>set [33]. \<not> (x = NL \<or> x = (253 :: byte))" by (simp add: NL_def)
  have h4: "NL = NL \<or> NL = (253 :: byte)" by simp
  have h7: "n_threads example_object \<noteq> 0" by (simp add: example_object_def)
  have n: "unat (n_threads example_object) = 1" by (simp add: example_object_def)
  note FA = unshuffle_decided_by_header_byte[OF h1 _ h3 h4 _ _ h7, where hs = "[104]" and ps = "[?sa]"
      and L = swap_library and x = 127 and D = ?D and f = "ascii ''in''"]
  note FQ = unshuffle_decided_by_header_byte[OF h1 _ h3 h4 _ _ h7, where hs = "[49, 114]"
      and ps = "[?sq]" and L = swap_library and b = 128]
  have fa: "frame_context ?sa = [253, 56, 254] @ ?sa"
    by (simp add: frame_context_def to_string.simps)
  have fq: "frame_context ?sq = [253, 49, 51, 254] @ ?sq"
    by (simp add: frame_context_def to_string.simps)
  have ra: "(case all_some
                 (map (\<lambda>t. if t < length [?sa]
                           then map_option Some
                                  (thread_output
                                     (\<lambda>p. decodeFA (unpackers_for swap_library [104] [])
                                             (unshufflePkd (lib_swaps swap_library)
                                                (keyFile example_object) p) 0 [])
                                     (THR_ID_HDR @ to_string t) (every_nth 1 (drop t [?sa])) [])
                           else Some None)
                    [0..<1]) of
            None \<Rightarrow> None
          | Some fs \<Rightarrow> join_files True (map open_opt fs) [])
         = Some (text_of [ascii ''>h'', ascii ''ACGT''])"
    by (rule one_thread_example)
       (auto simp: unshuffle_example decodeFA_example ascii_def NL_def THR_ID_HDR_def
          to_string.simps)
  have rq: "(case all_some
                 (map (\<lambda>t. if t < length [?sq]
                           then map_option Some
                                  (thread_output
                                     (\<lambda>p. decodeFQ (unpackers_for swap_library [49, 114] [33]) False
                                             (unshufflePkd (lib_swaps swap_library)
                                                (keyFile example_object) p) 0 [])
                                     (THR_ID_HDR @ to_string t) (every_nth 1 (drop t [?sq])) [])
                           else Some None)
                    [0..<1]) of
            None \<Rightarrow> None
          | Some fs \<Rightarrow> join_files True (map open_opt fs) [])
         = Some (text_of [ascii ''@r1'', ascii ''ACGN'', ascii ''+r1'', ascii ''!!!!''])"
  proof (rule one_thread_example)
    have u: "unpackers_for swap_library [49, 114] [33] = unpackers_for copy_library [49, 114] [33]"
      by (simp add: unpack_eval)
    show "decodeFQ (unpackers_for swap_library [49, 114] [33]) False
            (unshufflePkd (lib_swaps swap_library) (keyFile example_object) ?sq) 0 []
          = Some (text_of [ascii ''@r1'', ascii ''ACGN'', ascii ''+r1'', ascii ''!!!!''])"
      unfolding unshuffle_example u decodeFQ_example
      by (simp add: text_of_def ascii_def NL_def plus_line_def)
    show "\<forall>l\<in>set [ascii ''@r1'', ascii ''ACGN'', ascii ''+r1'', ascii ''!!!!''].
            NL \<notin> set l \<and> l \<noteq> THR_ID_HDR @ to_string 0"
      by (auto simp: ascii_def NL_def THR_ID_HDR_def to_string.simps)
  qed
  have 2: "decompressFA swap_library example_object ?packed
           = Some (text_of [ascii ''>h'', ascii ''ACGT''])"
    using FA[where b = 128,
             THEN conjunct2, THEN conjunct2, THEN conjunct2, THEN conjunct2, THEN conjunct1]
    unfolding n using ra by (simp add: fa)
  have 3: "decompressFA swap_library example_object
             [127, 129, 104, 254, 253, 56, 254, 254, 104, 254, 65, 67, 71, 84, 253, 252] = None"
    using FA[where b = 129,
             THEN conjunct2, THEN conjunct2, THEN conjunct2, THEN conjunct2, THEN conjunct1]
    unfolding n by (simp add: fa decodeFA_example_shuffled)
  have 4: "decompressFQ swap_library example_object
       [128, 49, 114, 254, 33, 10, 253, 49, 51, 254,
        254, 49, 254, 65, 67, 71, 78, 254, 33, 33, 33, 33, 114, 252]
       = Some (text_of [ascii ''@r1'', ascii ''ACGN'', ascii ''+r1'', ascii ''!!!!''])"
    using FQ[THEN conjunct2, THEN conjunct2, THEN conjunct2, THEN conjunct2, THEN conjunct2]
    unfolding n using rq by (simp add: fq NL_def)
  have ol: "option_loop ?D ?opts (no_flags, new_object ?D)
            = Some (no_flags\<lparr>d_flag := True, k_flag := True, keyFileName := ascii ''key''\<rparr>,
                    example_object\<lparr>keyFile := ascii ''passw0rd''\<rparr>)"
    by (simp add: option_step_def set_flag_def example_driver_def no_flags_def)
  have eo: "example_object\<lparr>keyFile := ascii ''passw0rd''\<rparr> = example_object"
    by (simp add: example_object_def)
  have wm: "getline (open_file (watermark (1, 0) @ ?packed)) []
            = (butlast (watermark (1, 0)), \<lparr>buf = ?packed, eofbit = False, failbit = False\<rparr>)"
    by (simp add: watermark_def ascii_def to_string.simps stream_eval)
  have wl: "butlast (watermark (1, 0)) @ [NL] = watermark (1, 0)"
    by (simp add: watermark_def butlast_append)
  have ne: "ascii ''in'' \<noteq> ascii ''key''" by (simp add: ascii_def)
  have dc: "decrypt swap_library (1, 0) example_object (Some (watermark (1, 0) @ ?packed))
            = Inr (Some ?packed)"
    unfolding decrypt_def using wm wl by (simp add: swap_library_def copy_library_def)
  have m: "main ?D swap_library (ascii ''in'') ?opts
           = Status 0 [] (text_of [ascii ''>h'', ascii ''ACGT''])"
    unfolding main_def ol eo option.case after_options_def
    using dc 2 ne by (simp add: example_driver_def run_compress_def)
  have 1: "main ?D swap_library (ascii ''in'') ([] @ Short 115 # ?opts)
           = Status 0 [] (text_of [ascii ''>h'', ascii ''ACGT''])"
    using FA[where b = 128, THEN conjunct1] m
    by simp
  show ?thesis using 1 2 3 4 by blast
qed


end
